theory Spec2Isabelle
  imports Complex_Main "HOL-Library.AList" "HOL-Library.Sublist"
begin

section \<open>Strings\<close>

text \<open>
  A JavaScript string is modelled as a \<open>string\<close>, the sequence of the bytes of its
  text (UTF-8); substring containment and equality of well-formed strings are the same
  on the bytes as on the characters. The case mapping and the white space of the
  runtime cover all of Unicode: \<^verbatim>\<open>String.prototype.toLowerCase\<close> and
  \<^verbatim>\<open>String.prototype.trim\<close> are taken as they are, as parameters of the model. Of
  \<^verbatim>\<open>trim\<close> one fact is built in: the empty string has nothing to remove and is
  returned as it is.
\<close>

record runtime =
  toLowerCase :: "string \<Rightarrow> string"
  trimNonEmpty :: "string \<Rightarrow> string"

definition trim :: "runtime \<Rightarrow> string \<Rightarrow> string" where
  "trim rt s = (if s = [] then [] else trimNonEmpty rt s)"

text \<open>\<^verbatim>\<open>s.includes(sub)\<close>: \<open>sub\<close> starts at some position of \<open>s\<close>.\<close>

fun string_includes :: "string \<Rightarrow> string \<Rightarrow> bool" where
  "string_includes [] sub = (sub = [])"
| "string_includes (c # cs) sub = (take (length sub) (c # cs) = sub \<or> string_includes cs sub)"

text \<open>\<^verbatim>\<open>x || ''\<close> for \<open>x\<close> a string or \<^verbatim>\<open>null\<close>: the empty string replaces
  \<^verbatim>\<open>null\<close> (and the empty string, which is falsy too).\<close>

definition or_empty :: "string option \<Rightarrow> string" where
  "or_empty x = (case x of None \<Rightarrow> [] | Some s \<Rightarrow> if s = [] then [] else s)"

section \<open>Errors and plain objects\<close>

text \<open>A thrown error object: the name of its constructor and its message.\<close>

record js_error =
  errorName :: string
  message :: string

text \<open>
  A plain object \<^verbatim>\<open>{}\<close> used as a dictionary: its own properties in insertion
  order. An assignment \<^verbatim>\<open>obj[k] = v\<close> overwrites the property \<open>k\<close> in place or
  appends it. The one key that behaves differently is \<^verbatim>\<open>__proto__\<close>: the
  assignment reaches the setter inherited from \<^verbatim>\<open>Object.prototype\<close>, which
  ignores a value that is neither an object nor \<^verbatim>\<open>null\<close>, so no own property is
  created. \<^verbatim>\<open>Object.values\<close> lists the values of the own properties (the
  order in which integer-like keys are listed is not modelled; only counts and lookups
  are used below).
\<close>

type_synonym 'v js_object = "(string \<times> 'v) list"

definition setProperty :: "'v js_object \<Rightarrow> string \<Rightarrow> 'v \<Rightarrow> 'v js_object" where
  "setProperty obj k v = (if k = ''__proto__'' then obj else AList.update k v obj)"

definition objectValues :: "'v js_object \<Rightarrow> 'v list" where
  "objectValues obj = map snd obj"

section \<open>The browser page\<close>

text \<open>
  The page is driven through Playwright. A locator is a selector, possibly narrowed by
  \<^verbatim>\<open>.first()\<close> or to the \<open>i\<close>-th element returned by \<^verbatim>\<open>.all()\<close>.
\<close>

type_synonym selector = string

datatype locator = Locator selector | First selector | Nth selector nat

text \<open>The driver calls that return nothing, with their arguments.\<close>

datatype action =
    Goto string "(string \<times> nat) option"
  | WaitForTimeout nat
  | WaitForSelector selector nat "string option"
  | Click locator
  | Clear locator
  | Fill locator string
  | Press locator string

text \<open>
  An event is one driver call together with its outcome: an action resolves or rejects
  with an error; \<^verbatim>\<open>isVisible\<close> answers a boolean; \<^verbatim>\<open>url()\<close> answers a string;
  \<^verbatim>\<open>locator(s).all()\<close> answers a number of elements; \<^verbatim>\<open>textContent\<close> answers
  a string or \<^verbatim>\<open>null\<close>.
\<close>

datatype event =
    Did action "js_error option"
  | Probed locator nat "js_error + bool"
  | ReadUrl string
  | Listed selector "js_error + nat"
  | ReadText locator "js_error + string option"
  | ReadPageText selector "js_error + string option"

text \<open>
  The browser is outside the program: a page gives, for every driver call, the outcome
  of that call after the events that happened so far. Nothing is assumed about these
  outcomes, so a statement about every page covers every run.
\<close>

record page =
  on_action :: "event list \<Rightarrow> action \<Rightarrow> js_error option"
  on_isVisible :: "event list \<Rightarrow> locator \<Rightarrow> nat \<Rightarrow> js_error + bool"
  on_url :: "event list \<Rightarrow> string"
  on_all :: "event list \<Rightarrow> selector \<Rightarrow> js_error + nat"
  on_textContent :: "event list \<Rightarrow> locator \<Rightarrow> js_error + string option"
  on_pageTextContent :: "event list \<Rightarrow> selector \<Rightarrow> js_error + string option"

text \<open>
  An asynchronous method, run after the events \<open>h\<close>, returns or throws, and makes
  driver calls on the way: the result and the events it added, in order. Output on the
  console is not part of the model.
\<close>

type_synonym 'a prog = "event list \<Rightarrow> (js_error + 'a) \<times> event list"

definition return :: "'a \<Rightarrow> 'a prog" where
  "return a h = (Inr a, [])"

definition throw :: "js_error \<Rightarrow> 'a prog" where
  "throw e h = (Inl e, [])"

definition bind :: "'a prog \<Rightarrow> ('a \<Rightarrow> 'b prog) \<Rightarrow> 'b prog" where
  "bind m f h =
     (case m h of
        (Inl e, es) \<Rightarrow> (Inl e, es)
      | (Inr a, es) \<Rightarrow> (case f a (h @ es) of (r, es') \<Rightarrow> (r, es @ es')))"

definition seq :: "unit prog \<Rightarrow> 'b prog \<Rightarrow> 'b prog" where
  "seq m n = bind m (\<lambda>_. n)"

text \<open>\<^verbatim>\<open>try { m } catch (error) { handler }\<close>\<close>

definition catch_with :: "'a prog \<Rightarrow> (js_error \<Rightarrow> 'a prog) \<Rightarrow> 'a prog" where
  "catch_with m handler h =
     (case m h of
        (Inl e, es) \<Rightarrow> (case handler e (h @ es) of (r, es') \<Rightarrow> (r, es @ es'))
      | (Inr a, es) \<Rightarrow> (Inr a, es))"

text \<open>The driver calls.\<close>

definition act :: "page \<Rightarrow> action \<Rightarrow> unit prog" where
  "act pg a h =
     (case on_action pg h a of
        None \<Rightarrow> (Inr (), [Did a None])
      | Some e \<Rightarrow> (Inl e, [Did a (Some e)]))"

definition isVisible :: "page \<Rightarrow> locator \<Rightarrow> nat \<Rightarrow> bool prog" where
  "isVisible pg l timeout h = (on_isVisible pg h l timeout, [Probed l timeout (on_isVisible pg h l timeout)])"

definition url :: "page \<Rightarrow> string prog" where
  "url pg h = (Inr (on_url pg h), [ReadUrl (on_url pg h)])"

definition locator_all :: "page \<Rightarrow> selector \<Rightarrow> nat prog" where
  "locator_all pg s h = (on_all pg h s, [Listed s (on_all pg h s)])"

definition textContent :: "page \<Rightarrow> locator \<Rightarrow> string option prog" where
  "textContent pg l h = (on_textContent pg h l, [ReadText l (on_textContent pg h l)])"

definition page_textContent :: "page \<Rightarrow> selector \<Rightarrow> string option prog" where
  "page_textContent pg s h = (on_pageTextContent pg h s, [ReadPageText s (on_pageTextContent pg h s)])"

section \<open>SearchValidationPage\<close>

subsection \<open>Locators and configuration\<close>

record locator_set =
  searchBox :: selector
  searchButton :: selector
  resultContainers :: selector
  resultHeaders :: selector
  resultDescriptions :: selector
  loadingIndicator :: selector

definition locators :: locator_set where
  "locators =
     \<lparr>searchBox = ''textarea[name=\"q\"]:not([aria-hidden=\"true\"]), input[name=\"q\"]:not([aria-hidden=\"true\"])'',
      searchButton = ''input[type=\"submit\"], button[type=\"submit\"]'',
      resultContainers = ''#search, #rso, main'',
      resultHeaders = ''h3, .LC20lb, .yuRUbf h3, [data-ved] h3'',
      resultDescriptions = ''.VwiC3b, [data-sncf], .s, .lEBKkf, .st'',
      loadingIndicator = ''[data-ved], .g, .tF2Cxc''\<rparr>"

record config =
  waitTimeout :: nat
  navigationTimeout :: nat

definition config :: config where
  "config = \<lparr>waitTimeout = 10000, navigationTimeout = 30000\<rparr>"

subsection \<open>Consent dialogs\<close>

definition consentSelectors :: "selector list" where
  "consentSelectors =
     [''button:has-text(\"Accept all\")'',
      ''button:has-text(\"I agree\")'',
      ''button:has-text(\"Accept\")'',
      ''[id*=\"accept\"], [class*=\"accept\"]'']"

text \<open>The body of the \<^verbatim>\<open>try\<close> block for one selector; it returns \<open>True\<close> when it
  reaches \<^verbatim>\<open>break\<close>.\<close>

definition consentAttempt :: "page \<Rightarrow> selector \<Rightarrow> bool prog" where
  "consentAttempt pg selector =
     bind (isVisible pg (Locator selector) 2000) (\<lambda>vis.
       if vis then
         seq (act pg (Click (Locator selector)))
        (seq (act pg (WaitForTimeout 1000))
             (return True))
       else return False)"

text \<open>The \<^verbatim>\<open>for\<close> loop: the \<^verbatim>\<open>catch\<close> block continues with the next selector.\<close>

primrec consentLoop :: "page \<Rightarrow> selector list \<Rightarrow> unit prog" where
  "consentLoop pg [] = return ()"
| "consentLoop pg (selector # rest) =
     bind (catch_with (consentAttempt pg selector) (\<lambda>error. return False)) (\<lambda>stop.
       if stop then return () else consentLoop pg rest)"

definition handleConsentDialogs :: "page \<Rightarrow> unit prog" where
  "handleConsentDialogs pg = consentLoop pg consentSelectors"

subsection \<open>Main search page\<close>



subsection \<open>Navigation\<close>


subsection \<open>Search execution\<close>

definition searchInput :: locator where
  "searchInput = First ''textarea[name=\"q\"]''"

definition executeSearch :: "page \<Rightarrow> string \<Rightarrow> unit prog" where
  "executeSearch pg searchTerm =
     catch_with
       (seq (act pg (WaitForSelector (searchBox locators) 10000 (Some ''visible'')))
       (bind (url pg) (\<lambda>currentUrl.
        seq (if string_includes currentUrl ''tbm=isch'' then
               seq (act pg (Goto ''https://www.google.com'' None))
                   (act pg (WaitForSelector ''textarea[name=\"q\"]'' 5000 None))
             else return ())
       (seq (act pg (Click searchInput))
       (seq (act pg (Clear searchInput))
       (seq (act pg (Fill searchInput searchTerm))
       (seq (act pg (Press searchInput ''Enter''))
            (act pg (WaitForSelector (resultContainers locators) (waitTimeout config) None)))))))))
       (\<lambda>error. throw \<lparr>errorName = ''Error'', message = ''Search execution failed: '' @ message error\<rparr>)"

subsection \<open>Result validation\<close>

record validation_results =
  totalResults :: nat
  keywordMatches :: "bool js_object"
  isValid :: bool

text \<open>\<^verbatim>\<open>expect(received).toBeGreaterThanOrEqual(expected)\<close> throws when the
  comparison fails; the message is reduced to the matcher's headline.\<close>

definition expect_toBeGreaterThanOrEqual :: "nat \<Rightarrow> int \<Rightarrow> unit prog" where
  "expect_toBeGreaterThanOrEqual received expected =
     (if int received \<ge> expected then return ()
      else throw \<lparr>errorName = ''Error'', message = ''expect(received).toBeGreaterThanOrEqual(expected)''\<rparr>)"

text \<open>\<^verbatim>\<open>pageContent.toLowerCase()\<close>, where \<^verbatim>\<open>pageContent\<close> may be \<^verbatim>\<open>null\<close>.\<close>

definition toLowerCase_of :: "runtime \<Rightarrow> string option \<Rightarrow> string prog" where
  "toLowerCase_of rt x =
     (case x of
        None \<Rightarrow> throw \<lparr>errorName = ''TypeError'',
                        message = ''Cannot read properties of null (reading 'toLowerCase')''\<rparr>
      | Some s \<Rightarrow> return (toLowerCase rt s))"

text \<open>The loop over the expected keywords.\<close>

primrec keywordLoop :: "runtime \<Rightarrow> string \<Rightarrow> string list \<Rightarrow> bool js_object \<Rightarrow> bool js_object" where
  "keywordLoop rt contentLower [] matches = matches"
| "keywordLoop rt contentLower (keyword # rest) matches =
     (let keywordLower = toLowerCase rt keyword;
          isPresent = string_includes contentLower keywordLower
      in keywordLoop rt contentLower rest (setProperty matches keyword isPresent))"

text \<open>\<^verbatim>\<open>Math.ceil\<close> on the quotient of a length by 2 (exact in floating point).\<close>

definition Math_ceil :: "real \<Rightarrow> int" where
  "Math_ceil x = \<lceil>x\<rceil>"

text \<open>The model takes the \<open>minResultCount\<close> that is passed; the default 3 applies
  to a caller that passes none.\<close>

definition validateSearchResults ::
  "runtime \<Rightarrow> page \<Rightarrow> string list \<Rightarrow> int \<Rightarrow> validation_results prog" where
  "validateSearchResults rt pg expectedKeywords minResultCount =
     catch_with
       (bind (locator_all pg (resultHeaders locators)) (\<lambda>resultElements.
        seq (expect_toBeGreaterThanOrEqual resultElements minResultCount)
       (bind (page_textContent pg ''body'') (\<lambda>pageContent.
        bind (toLowerCase_of rt pageContent) (\<lambda>contentLower.
        return
          (let matches = keywordLoop rt contentLower expectedKeywords [];
               keywordMatchCount = length (filter (\<lambda>m. m = True) (objectValues matches))
           in \<lparr>totalResults = resultElements,
               keywordMatches = matches,
               isValid = (int keywordMatchCount \<ge> Math_ceil (real (length expectedKeywords) / 2))\<rparr>))))))
       (\<lambda>error. throw \<lparr>errorName = ''Error'', message = ''Result validation failed: '' @ message error\<rparr>)"

subsection \<open>Result extraction\<close>

record result_entry =
  position :: nat
  title :: string
  description :: string

text \<open>
  The \<^verbatim>\<open>for\<close> loop inside the \<^verbatim>\<open>try\<close> block, from index \<open>i\<close> on. The array
  \<^verbatim>\<open>resultData\<close> lives outside the block, so the loop hands it back both when it
  completes (\<open>None\<close>) and when a call throws (\<open>Some error\<close>).
\<close>

function extractLoop ::
  "runtime \<Rightarrow> page \<Rightarrow> nat \<Rightarrow> nat \<Rightarrow> nat \<Rightarrow> result_entry list \<Rightarrow> event list
     \<Rightarrow> (js_error option \<times> result_entry list) \<times> event list" where
  "extractLoop rt pg nTitles nDescriptions i resultData h =
     (if i < min nTitles 10 then
        (case bind (textContent pg (Nth (resultHeaders locators) i)) (\<lambda>t. return (or_empty t)) h of
           (Inl error, es1) \<Rightarrow> ((Some error, resultData), es1)
         | (Inr titleText, es1) \<Rightarrow>
             (case (if i < nDescriptions
                    then bind (textContent pg (Nth (resultDescriptions locators) i)) (\<lambda>d. return (or_empty d))
                    else return []) (h @ es1) of
                (Inl error, es2) \<Rightarrow> ((Some error, resultData), es1 @ es2)
              | (Inr descriptionText, es2) \<Rightarrow>
                  (case extractLoop rt pg nTitles nDescriptions (i + 1)
                          (resultData @ [\<lparr>position = i + 1, title = trim rt titleText,
                                           description = trim rt descriptionText\<rparr>])
                          (h @ es1 @ es2) of
                     (r, es3) \<Rightarrow> (r, es1 @ es2 @ es3))))
      else ((None, resultData), []))"
  by pat_completeness auto
termination
  by (relation "measure (\<lambda>(rt, pg, nTitles, nDescriptions, i, resultData, h). min nTitles 10 - i)") auto

declare extractLoop.simps [simp del]

text \<open>The \<^verbatim>\<open>try\<close> block: both \<^verbatim>\<open>.all()\<close> calls, then the loop.\<close>

definition extractBody :: "runtime \<Rightarrow> page \<Rightarrow> event list \<Rightarrow> (js_error option \<times> result_entry list) \<times> event list" where
  "extractBody rt pg h =
     (case locator_all pg (resultHeaders locators) h of
        (Inl error, es1) \<Rightarrow> ((Some error, []), es1)
      | (Inr nTitles, es1) \<Rightarrow>
          (case locator_all pg (resultDescriptions locators) (h @ es1) of
             (Inl error, es2) \<Rightarrow> ((Some error, []), es1 @ es2)
           | (Inr nDescriptions, es2) \<Rightarrow>
               (case extractLoop rt pg nTitles nDescriptions 0 [] (h @ es1 @ es2) of
                  (r, es3) \<Rightarrow> (r, es1 @ es2 @ es3))))"

text \<open>Both the normal exit and the \<^verbatim>\<open>catch\<close> block return \<^verbatim>\<open>resultData\<close>.\<close>

definition extractResultData :: "runtime \<Rightarrow> page \<Rightarrow> result_entry list prog" where
  "extractResultData rt pg h =
     (case extractBody rt pg h of
        ((None, resultData), es) \<Rightarrow> (Inr resultData, es)
      | ((Some error, resultData), es) \<Rightarrow> (Inr resultData, es))"

section \<open>Reading the event log\<close>

text \<open>The locators probed with \<^verbatim>\<open>isVisible\<close>, in the order of the probes.\<close>

fun probes :: "event list \<Rightarrow> locator list" where
  "probes [] = []"
| "probes (Probed l timeout r # es) = l # probes es"
| "probes (_ # es) = probes es"

text \<open>The driver call of this event threw.\<close>

fun raised :: "event \<Rightarrow> bool" where
  "raised (Did a r) = (r \<noteq> None)"
| "raised (Probed l timeout r) = (\<exists>e. r = Inl e)"
| "raised (ReadUrl u) = False"
| "raised (Listed s r) = (\<exists>e. r = Inl e)"
| "raised (ReadText l r) = (\<exists>e. r = Inl e)"
| "raised (ReadPageText s r) = (\<exists>e. r = Inl e)"

text \<open>
  The text of the search field after the events of a log, when it held \<open>v\<close> before.
  A resolved \<^verbatim>\<open>clear\<close> empties the field. Of a resolved \<^verbatim>\<open>fill\<close> only so much is
  assumed that its text is added to what the field holds: that nothing older remains
  is then due to the \<^verbatim>\<open>clear\<close> before it.
\<close>

fun fieldAfter :: "string \<Rightarrow> event list \<Rightarrow> string" where
  "fieldAfter v [] = v"
| "fieldAfter v (Did (Clear l) None # es) = fieldAfter (if l = searchInput then [] else v) es"
| "fieldAfter v (Did (Fill l s) None # es) = fieldAfter (if l = searchInput then v @ s else v) es"
| "fieldAfter v (_ # es) = fieldAfter v es"

section \<open>The locator resolution of the specification\<close>

text \<open>
  The specification reads a locator role as an ordered list of selector alternatives,
  tried in order until one matches a visible element. For the search input the
  alternatives are the two comma-separated parts of \<open>searchBox locators\<close>.
\<close>

definition spec_searchInputAlternatives :: "selector list" where
  "spec_searchInputAlternatives =
     [''textarea[name=\"q\"]:not([aria-hidden=\"true\"])'',
      ''input[name=\"q\"]:not([aria-hidden=\"true\"])'']"


section \<open>Entries and reads of the extraction loop\<close>

text \<open>The entry pushed for index \<open>i\<close> when \<^verbatim>\<open>textContent\<close> answered \<open>t\<close> for the
  title and \<open>d\<close> for the description (read only when \<open>i\<close> is below the number of
  description elements), and the events of these reads.\<close>

definition entryAt ::
  "runtime \<Rightarrow> nat \<Rightarrow> nat \<Rightarrow> string option \<Rightarrow> string option \<Rightarrow> result_entry" where
  "entryAt rt nDescriptions i t d =
     \<lparr>position = i + 1, title = trim rt (or_empty t),
      description = (if i < nDescriptions then trim rt (or_empty d) else [])\<rparr>"

definition readsAt :: "nat \<Rightarrow> nat \<Rightarrow> string option \<Rightarrow> string option \<Rightarrow> event list" where
  "readsAt nDescriptions i t d =
     ReadText (Nth (resultHeaders locators) i) (Inr t) #
     (if i < nDescriptions then [ReadText (Nth (resultDescriptions locators) i) (Inr d)] else [])"

section \<open>Runs of actions\<close>

text \<open>Actions awaited one after the other: the first that rejects ends the run.\<close>

primrec acts :: "page \<Rightarrow> action list \<Rightarrow> unit prog" where
  "acts pg [] = return ()"
| "acts pg (a # as) = seq (act pg a) (acts pg as)"

text \<open>The actions of \<open>executeSearch\<close> after it has read the URL \<open>currentUrl\<close>.\<close>

definition inputScript :: "string \<Rightarrow> action list" where
  "inputScript searchTerm =
     [Click searchInput, Clear searchInput, Fill searchInput searchTerm,
      Press searchInput ''Enter'',
      WaitForSelector (resultContainers locators) (waitTimeout config) None]"

definition searchScript :: "string \<Rightarrow> string \<Rightarrow> action list" where
  "searchScript currentUrl searchTerm =
     (if string_includes currentUrl ''tbm=isch''
      then [Goto ''https://www.google.com'' None, WaitForSelector ''textarea[name=\"q\"]'' 5000 None]
      else []) @ inputScript searchTerm"

text \<open>The errors thrown by the \<^verbatim>\<open>catch\<close> blocks.\<close>

definition searchFailure :: "js_error \<Rightarrow> js_error" where
  "searchFailure cause =
     \<lparr>errorName = ''Error'', message = ''Search execution failed: '' @ message cause\<rparr>"


definition wrapped :: "(js_error \<Rightarrow> js_error) \<Rightarrow> (js_error + unit) \<Rightarrow> (js_error + unit)" where
  "wrapped f r = (case r of Inl e \<Rightarrow> Inl (f e) | Inr u \<Rightarrow> Inr u)"

text \<open>The consent loop after the events \<open>blk\<close> of one selector that did not end it.\<close>

definition continue_with ::
  "page \<Rightarrow> selector list \<Rightarrow> event list \<Rightarrow> event list \<Rightarrow> (js_error + unit) \<times> event list" where
  "continue_with pg ss h blk = (case consentLoop pg ss (h @ blk) of (r, es) \<Rightarrow> (r, blk @ es))"

text \<open>The events of one selector after which the consent loop goes on: the probe
  threw, or answered no, or the click threw, or the delay after the click threw.\<close>

definition skipped :: "selector \<Rightarrow> event list \<Rightarrow> bool" where
  "skipped s blk \<longleftrightarrow>
     (\<exists>e. blk = [Probed (Locator s) 2000 (Inl e)]) \<or>
     blk = [Probed (Locator s) 2000 (Inr False)] \<or>
     (\<exists>e. blk = [Probed (Locator s) 2000 (Inr True), Did (Click (Locator s)) (Some e)]) \<or>
     (\<exists>e. blk = [Probed (Locator s) 2000 (Inr True), Did (Click (Locator s)) None,
                  Did (WaitForTimeout 1000) (Some e)])"

section \<open>The runtime on ASCII text\<close>

text \<open>
  On ASCII text \<^verbatim>\<open>toLowerCase\<close> lower-cases the letters A to Z and leaves every other
  character as it is, and \<^verbatim>\<open>trim\<close> removes tab, line feed, vertical tab, form feed,
  carriage return and space at both ends. The examples below use ASCII text only, and
  this runtime for them.
\<close>

definition asciiToLowerChar :: "char \<Rightarrow> char" where
  "asciiToLowerChar c =
     (case map_of (zip ''ABCDEFGHIJKLMNOPQRSTUVWXYZ'' ''abcdefghijklmnopqrstuvwxyz'') c of
        Some l \<Rightarrow> l
      | None \<Rightarrow> c)"

definition asciiToLowerCase :: "string \<Rightarrow> string" where
  "asciiToLowerCase s = map asciiToLowerChar s"

definition isAsciiWhiteSpace :: "char \<Rightarrow> bool" where
  "isAsciiWhiteSpace c = (c \<in> set [CHR 0x09, CHR 0x0A, CHR 0x0B, CHR 0x0C, CHR 0x0D, CHR '' ''])"

definition asciiTrim :: "string \<Rightarrow> string" where
  "asciiTrim s = rev (dropWhile isAsciiWhiteSpace (rev (dropWhile isAsciiWhiteSpace s)))"

definition asciiRuntime :: runtime where
  "asciiRuntime = \<lparr>toLowerCase = asciiToLowerCase, trimNonEmpty = asciiTrim\<rparr>"

section \<open>Example pages\<close>

text \<open>
  A page whose answers do not depend on the events before: every action resolves,
  nothing optional is visible, \<open>n\<close> elements match every selector, each element has
  the text \<open>elementText\<close> and the page has the text \<open>body\<close>.
\<close>

definition staticPage :: "string \<Rightarrow> nat \<Rightarrow> string \<Rightarrow> string \<Rightarrow> page" where
  "staticPage address n elementText body =
     \<lparr>on_action = (\<lambda>h a. None),
      on_isVisible = (\<lambda>h l timeout. Inr False),
      on_url = (\<lambda>h. address),
      on_all = (\<lambda>h s. Inr n),
      on_textContent = (\<lambda>h l. Inr (Some elementText)),
      on_pageTextContent = (\<lambda>h s. Inr (Some body))\<rparr>"

text \<open>A result page for the query \<^verbatim>\<open>valletta\<close>: five results, and a text that
  mentions Malta and capital but not unesco.\<close>

definition vallettaPage :: page where
  "vallettaPage =
     staticPage ''https://www.google.com/search?q=valletta'' 5 ''  Valletta - Wikipedia ''
       ''Valletta, capital of Malta''"

text \<open>A result page whose text contains \<^verbatim>\<open>__proto__\<close>.\<close>

definition protoPage :: page where
  "protoPage =
     staticPage ''https://www.google.com/search?q=prototype'' 5 ''Object.prototype.__proto__''
       ''the __proto__ property''"

text \<open>A page with a consent dialog: probing the first consent selector throws (it
  matches several elements), the second selector is visible.\<close>

definition consentPage :: page where
  "consentPage =
     (staticPage ''https://www.google.com/'' 0 [] [])
       \<lparr>on_isVisible := (\<lambda>h l timeout.
          if l = Locator ''button:has-text(\"Accept all\")''
          then Inl \<lparr>errorName = ''Error'', message = ''strict mode violation''\<rparr>
          else Inr (l = Locator ''button:has-text(\"I agree\")''))\<rparr>"

text \<open>A page with a consent dialog whose first button is visible but cannot be
  clicked (it is covered), whose second button is absent and whose third button is
  visible and can be clicked.\<close>

definition coveredConsentPage :: page where
  "coveredConsentPage =
     (staticPage ''https://www.google.com/'' 0 [] [])
       \<lparr>on_action := (\<lambda>h a.
          if a = Click (Locator ''button:has-text(\"Accept all\")'')
          then Some \<lparr>errorName = ''TimeoutError'', message = ''Timeout 30000ms exceeded.''\<rparr>
          else None),
        on_isVisible := (\<lambda>h l timeout.
          Inr (l = Locator ''button:has-text(\"Accept all\")'' \<or>
               l = Locator ''button:has-text(\"Accept\")''))\<rparr>"



text \<open>The search engine's home page, with a \<^verbatim>\<open>textarea\<close> as query field.\<close>

definition homePage :: page where
  "homePage = staticPage ''https://www.google.com/'' 0 [] []"

text \<open>The home page when the search brings no result container: the last wait times
  out.\<close>

definition noResultsPage :: page where
  "noResultsPage =
     (staticPage ''https://www.google.com/'' 0 [] [])
       \<lparr>on_action := (\<lambda>h a.
          if a = WaitForSelector (resultContainers locators) (waitTimeout config) None
          then Some \<lparr>errorName = ''TimeoutError'', message = ''Timeout 10000ms exceeded.''\<rparr>
          else None)\<rparr>"

text \<open>The image search, whose address has \<^verbatim>\<open>tbm=isch\<close>.\<close>

definition imagesPage :: page where
  "imagesPage = staticPage ''https://www.google.com/?tbm=isch'' 0 [] []"

text \<open>A result page with two titles and one description; the second title has no
  text.\<close>

definition twoResultsPage :: page where
  "twoResultsPage =
     (staticPage ''https://www.google.com/search?q=valletta'' 2 [] [])
       \<lparr>on_all := (\<lambda>h s. Inr (if s = resultHeaders locators then 2 else 1)),
        on_textContent := (\<lambda>h l.
          Inr (if l = Nth (resultHeaders locators) 0 then Some ''  Valletta - Wikipedia ''
               else if l = Nth (resultHeaders locators) 1 then None
               else Some '' Capital of Malta ''))\<rparr>"

text \<open>A result page with five results on which reading the third title throws.\<close>

definition brokenReadPage :: page where
  "brokenReadPage =
     (staticPage ''https://www.google.com/search?q=valletta'' 5 [] [])
       \<lparr>on_textContent := (\<lambda>h l.
          if l = Nth (resultHeaders locators) 2
          then Inl \<lparr>errorName = ''Error'', message = ''Target closed''\<rparr>
          else Inr (Some ''  Valletta ''))\<rparr>"

section \<open>Strings: auxiliary facts\<close>

text \<open>\<open>string_includes\<close> is substring containment.\<close>

lemma string_includes_iff: "string_includes s sub \<longleftrightarrow> (\<exists>pre post. s = pre @ sub @ post)"
proof (induction s)
  case Nil
  then show ?case by auto
next
  case (Cons c cs)
  have "take (length sub) (c # cs) = sub \<longleftrightarrow> (\<exists>post. c # cs = sub @ post)"
    by (metis append_eq_conv_conj)
  moreover have "(\<exists>pre post. c # cs = pre @ sub @ post) \<longleftrightarrow>
      (\<exists>post. c # cs = sub @ post) \<or> (\<exists>pre post. cs = pre @ sub @ post)"
    apply (rule iffI)
     apply (metis append_Nil Cons_eq_append_conv)
    apply (metis append_Cons append_Nil)
    done
  ultimately show ?case using Cons.IH by simp
qed

section \<open>Result validation: auxiliary facts\<close>

lemma keywordLoop_map_of:
  "map_of (keywordLoop rt c ks m) k =
     (if k \<in> set ks \<and> k \<noteq> ''__proto__'' then Some (string_includes c (toLowerCase rt k))
      else map_of m k)"
  by (induction ks arbitrary: m) (auto simp: setProperty_def Let_def update_conv')

lemma keywordLoop_distinct:
  "distinct (map fst m) \<Longrightarrow> distinct (map fst (keywordLoop rt c ks m))"
  by (induction ks arbitrary: m) (auto simp: setProperty_def Let_def distinct_update)

lemma keywordLoop_keys:
  "fst ` set (keywordLoop rt c ks m) = fst ` set m \<union> (set ks - {''__proto__''})"
  by (induction ks arbitrary: m) (auto simp: setProperty_def Let_def dom_update)

lemma count_true_card:
  assumes "distinct (map fst m)"
  shows "length (filter (\<lambda>b. b = True) (objectValues m)) = card {k. map_of m k = Some True}"
  using assms
proof (induction m)
  case Nil
  then show ?case by (simp add: objectValues_def)
next
  case (Cons p m)
  obtain k b where p: "p = (k, b)" by (cases p)
  from Cons.prems p have notin: "k \<notin> fst ` set m" and d: "distinct (map fst m)" by auto
  have fin: "finite {k'. map_of m k' = Some True}"
    by (rule finite_subset[of _ "fst ` set m"]) (auto dest: map_of_SomeD intro: rev_image_eqI)
  have nk: "k \<notin> {k'. map_of m k' = Some True}"
    using notin by (auto dest: map_of_SomeD intro: rev_image_eqI)
  show ?case
  proof (cases b)
    case True
    have "{k'. map_of (p # m) k' = Some True} = insert k {k'. map_of m k' = Some True}"
      using p True by auto
    then show ?thesis using Cons.IH[OF d] p True fin nk by (simp add: objectValues_def)
  next
    case False
    have "{k'. map_of (p # m) k' = Some True} = {k'. map_of m k' = Some True}"
      using p False nk by auto
    then show ?thesis using Cons.IH[OF d] p False by (simp add: objectValues_def)
  qed
qed

text \<open>The run in which the count passes and the page text is read.\<close>

lemma validate_returns:
  assumes "on_all pg h (resultHeaders locators) = Inr n"
    and "minResultCount \<le> int n"
    and "on_pageTextContent pg (h @ [Listed (resultHeaders locators) (Inr n)]) ''body'' = Inr (Some content)"
  shows "validateSearchResults rt pg expectedKeywords minResultCount h =
     (Inr \<lparr>totalResults = n,
           keywordMatches = keywordLoop rt (toLowerCase rt content) expectedKeywords [],
           isValid = (int (length (filter (\<lambda>m. m = True)
                         (objectValues (keywordLoop rt (toLowerCase rt content) expectedKeywords []))))
                      \<ge> Math_ceil (real (length expectedKeywords) / 2))\<rparr>,
      [Listed (resultHeaders locators) (Inr n),
       ReadPageText ''body'' (Inr (Some content))])"
  using assms
  by (simp add: validateSearchResults_def catch_with_def bind_def seq_def locator_all_def
      expect_toBeGreaterThanOrEqual_def return_def page_textContent_def toLowerCase_of_def Let_def)

text \<open>It is the only run that returns a result.\<close>

lemma validate_Inr_cases:
  assumes "fst (validateSearchResults rt pg expectedKeywords minResultCount h) = Inr r"
  shows "\<exists>n content. on_all pg h (resultHeaders locators) = Inr n \<and> minResultCount \<le> int n \<and>
     on_pageTextContent pg (h @ [Listed (resultHeaders locators) (Inr n)]) ''body'' = Inr (Some content)"
  using assms
  by (auto simp add: validateSearchResults_def catch_with_def bind_def seq_def locator_all_def
      expect_toBeGreaterThanOrEqual_def return_def throw_def page_textContent_def toLowerCase_of_def Let_def
      split: sum.splits prod.splits if_splits option.splits)

lemma validate_too_few:
  assumes "on_all pg h (resultHeaders locators) = Inr n"
    and "int n < minResultCount"
  shows "validateSearchResults rt pg expectedKeywords minResultCount h =
     (Inl \<lparr>errorName = ''Error'',
           message = ''Result validation failed: expect(received).toBeGreaterThanOrEqual(expected)''\<rparr>,
      [Listed (resultHeaders locators) (Inr n)])"
  using assms
  by (simp add: validateSearchResults_def catch_with_def bind_def seq_def locator_all_def
      expect_toBeGreaterThanOrEqual_def return_def throw_def)

section \<open>Evaluating the examples\<close>

lemmas page_defs = staticPage_def vallettaPage_def protoPage_def

lemmas eval_defs = locators_def asciiRuntime_def asciiToLowerCase_def asciiToLowerChar_def
  setProperty_def objectValues_def
  Math_ceil_def Let_def

lemma valletta_eval:
  "validateSearchResults asciiRuntime vallettaPage [''malta'', ''capital'', ''unesco''] 3 [] =
     (Inr \<lparr>totalResults = 5,
            keywordMatches = [(''malta'', True), (''capital'', True), (''unesco'', False)],
            isValid = True\<rparr>,
      [Listed (resultHeaders locators) (Inr 5),
       ReadPageText ''body'' (Inr (Some ''Valletta, capital of Malta''))])"
  apply (simp add: page_defs)
  apply (subst validate_returns[where n=5 and content="''Valletta, capital of Malta''"])
     apply simp
    apply simp
   apply simp
  apply (simp add: eval_defs)
  done

section \<open>Claims on result validation\<close>

text \<open>
  C1. Whenever \<open>validateSearchResults\<close> returns a result, its \<open>isValid\<close> field is true
  exactly when the number of keywords recorded as matched (the entries of
  \<open>keywordMatches\<close> with value true, one entry per key) is at least the ceiling of
  half the length of \<open>expectedKeywords\<close>. It does return a result whenever the count of
  result headers is available and at least \<open>minResultCount\<close> and the page text can be
  read.
\<close>

theorem C1_isValid_iff_majority:
  "(\<forall>r. fst (validateSearchResults rt pg expectedKeywords minResultCount h) = Inr r \<longrightarrow>
      distinct (map fst (keywordMatches r)) \<and>
      (isValid r \<longleftrightarrow>
         \<lceil>real (length expectedKeywords) / 2\<rceil>
           \<le> int (length (filter (\<lambda>m. m = True) (objectValues (keywordMatches r))))))
   \<and> (\<forall>n content.
        on_all pg h (resultHeaders locators) = Inr n \<and> minResultCount \<le> int n \<and>
        on_pageTextContent pg (h @ [Listed (resultHeaders locators) (Inr n)]) ''body'' = Inr (Some content)
        \<longrightarrow> (\<exists>r. fst (validateSearchResults rt pg expectedKeywords minResultCount h) = Inr r))"
proof (intro conjI allI impI)
  fix r
  assume r: "fst (validateSearchResults rt pg expectedKeywords minResultCount h) = Inr r"
  from validate_Inr_cases[OF r] obtain n content where
    "on_all pg h (resultHeaders locators) = Inr n" "minResultCount \<le> int n"
    "on_pageTextContent pg (h @ [Listed (resultHeaders locators) (Inr n)]) ''body'' = Inr (Some content)"
    by blast
  from validate_returns[OF this, of rt expectedKeywords] r
  have req: "r = \<lparr>totalResults = n,
           keywordMatches = keywordLoop rt (toLowerCase rt content) expectedKeywords [],
           isValid = (int (length (filter (\<lambda>m. m = True)
                         (objectValues (keywordLoop rt (toLowerCase rt content) expectedKeywords []))))
                      \<ge> Math_ceil (real (length expectedKeywords) / 2))\<rparr>"
    by simp
  show "distinct (map fst (keywordMatches r))"
    by (simp add: req keywordLoop_distinct)
  show "isValid r \<longleftrightarrow>
         \<lceil>real (length expectedKeywords) / 2\<rceil>
           \<le> int (length (filter (\<lambda>m. m = True) (objectValues (keywordMatches r))))"
    by (simp add: req Math_ceil_def)
next
  fix n content
  assume "on_all pg h (resultHeaders locators) = Inr n \<and> minResultCount \<le> int n \<and>
        on_pageTextContent pg (h @ [Listed (resultHeaders locators) (Inr n)]) ''body'' = Inr (Some content)"
  then show "\<exists>r. fst (validateSearchResults rt pg expectedKeywords minResultCount h) = Inr r"
    by (simp add: validate_returns)
qed

text \<open>The query \<^verbatim>\<open>valletta\<close> with three expected keywords, two of them on the page:
  the result is valid, as 2 is the ceiling of 3/2.\<close>

theorem C1_isValid_iff_majority_witness:
  "fst (validateSearchResults asciiRuntime vallettaPage [''malta'', ''capital'', ''unesco''] 3 []) =
     Inr \<lparr>totalResults = 5,
          keywordMatches = [(''malta'', True), (''capital'', True), (''unesco'', False)],
          isValid = True\<rparr>
   \<and> \<lceil>real (length [''malta'', ''capital'', ''unesco'']) / 2\<rceil> = 2
   \<and> length (filter (\<lambda>m. m = True)
        (objectValues [(''malta'', True), (''capital'', True), (''unesco'', False)])) = 2"
  using C1_isValid_iff_majority [of asciiRuntime vallettaPage "[''malta'', ''capital'', ''unesco'']" 3 "[]"]
  by (simp add: valletta_eval objectValues_def)

text \<open>
  C2. When the count of result headers is below \<open>minResultCount\<close>, the call throws
  (the failed expectation, rethrown as an \<^verbatim>\<open>Error\<close> whose message starts with
  \<^verbatim>\<open>Result validation failed: \<close>); the count is the only driver call it made, so
  the page text was never read and no keyword was matched; no result is returned.
\<close>

theorem C2_too_few_results_fail:
  assumes "on_all pg h (resultHeaders locators) = Inr n"
    and "int n < minResultCount"
  shows "(\<exists>e. fst (validateSearchResults rt pg expectedKeywords minResultCount h) = Inl e
            \<and> errorName e = ''Error''
            \<and> prefix ''Result validation failed: '' (message e))
       \<and> snd (validateSearchResults rt pg expectedKeywords minResultCount h) =
           [Listed (resultHeaders locators) (Inr n)]"
  using validate_too_few[OF assms] by simp

text \<open>Five results where six are required.\<close>

theorem C2_too_few_results_fail_witness:
  "on_all vallettaPage [] (resultHeaders locators) = Inr 5 \<and> int 5 < 6 \<and>
   (\<exists>e. fst (validateSearchResults asciiRuntime vallettaPage [''malta'', ''capital'', ''unesco''] 6 []) = Inl e) \<and>
   snd (validateSearchResults asciiRuntime vallettaPage [''malta'', ''capital'', ''unesco''] 6 []) =
     [Listed (resultHeaders locators) (Inr 5)]"
proof -
  have a: "on_all vallettaPage [] (resultHeaders locators) = Inr 5"
    by (simp add: page_defs)
  have b: "int 5 < 6" by simp
  show ?thesis
    using a b C2_too_few_results_fail [OF a b, of asciiRuntime "[''malta'', ''capital'', ''unesco'']"] by blast
qed

text \<open>
  Keywords other than \<^verbatim>\<open>__proto__\<close>: a keyword of the list is recorded as matched
  exactly when its lower-cased form is a substring of the lower-cased page text, and as
  not matched otherwise.
\<close>

lemma keyword_recorded_iff:
  assumes "validateSearchResults rt pg expectedKeywords minResultCount h = (Inr r, es)"
    and "k \<in> set expectedKeywords" and "k \<noteq> ''__proto__''"
  shows "\<exists>content. ReadPageText ''body'' (Inr (Some content)) \<in> set es \<and>
     (map_of (keywordMatches r) k = Some True \<longleftrightarrow>
        (\<exists>pre post. toLowerCase rt content = pre @ toLowerCase rt k @ post)) \<and>
     (map_of (keywordMatches r) k = Some False \<longleftrightarrow>
        \<not> (\<exists>pre post. toLowerCase rt content = pre @ toLowerCase rt k @ post))"
proof -
  from assms(1) have "fst (validateSearchResults rt pg expectedKeywords minResultCount h) = Inr r"
    by simp
  from validate_Inr_cases[OF this] obtain n content where
    "on_all pg h (resultHeaders locators) = Inr n" "minResultCount \<le> int n"
    "on_pageTextContent pg (h @ [Listed (resultHeaders locators) (Inr n)]) ''body'' = Inr (Some content)"
    by blast
  from validate_returns[OF this, of rt expectedKeywords] assms(1)
  have r: "keywordMatches r = keywordLoop rt (toLowerCase rt content) expectedKeywords []"
    and es: "es = [Listed (resultHeaders locators) (Inr n), ReadPageText ''body'' (Inr (Some content))]"
    by auto
  show ?thesis
    apply (rule exI[of _ content])
    using assms(2,3) by (simp add: r es keywordLoop_map_of string_includes_iff)
qed

text \<open>\<^verbatim>\<open>MALTA\<close> matches a page text that contains \<^verbatim>\<open>Malta\<close>.\<close>

lemma malta_eval:
  "fst (validateSearchResults asciiRuntime vallettaPage [''MALTA''] 3 []) =
     Inr \<lparr>totalResults = 5, keywordMatches = [(''MALTA'', True)], isValid = True\<rparr>"
  apply (simp add: page_defs)
  apply (subst validate_returns[where n=5 and content="''Valletta, capital of Malta''"])
     apply simp
    apply simp
   apply simp
  apply (simp add: eval_defs)
  done

lemma proto_eval:
  "validateSearchResults rt protoPage ks 3 [] =
     (Inr \<lparr>totalResults = 5,
           keywordMatches = keywordLoop rt (toLowerCase rt ''the __proto__ property'') ks [],
           isValid = (int (length (filter (\<lambda>m. m = True)
                         (objectValues (keywordLoop rt (toLowerCase rt ''the __proto__ property'') ks []))))
                      \<ge> Math_ceil (real (length ks) / 2))\<rparr>,
      [Listed (resultHeaders locators) (Inr 5),
       ReadPageText ''body'' (Inr (Some ''the __proto__ property''))])"
  apply (simp only: page_defs)
  apply (rule validate_returns)
     apply simp
    apply simp
   apply simp
  done

text \<open>
  C5. The keyword \<^verbatim>\<open>__proto__\<close> is on the page, in the same case, and yet it is not
  recorded as matched, whatever the case mapping of the runtime: the assignment
  \<^verbatim>\<open>keywordMatches[keyword] = isPresent\<close> stores nothing for this key,
  \<open>keywordMatches\<close> stays empty and the query is judged invalid.
\<close>

theorem C5_proto_keyword_not_recorded:
  "fst (validateSearchResults rt protoPage [''__proto__''] 3 []) =
     Inr \<lparr>totalResults = 5, keywordMatches = [], isValid = False\<rparr>
   \<and> string_includes (toLowerCase asciiRuntime ''the __proto__ property'')
        (toLowerCase asciiRuntime ''__proto__'')"
  by (simp add: proto_eval) (simp add: eval_defs)

lemma malta3_eval:
  "validateSearchResults asciiRuntime vallettaPage [''malta'', ''malta'', ''malta''] 3 [] =
     (Inr \<lparr>totalResults = 5, keywordMatches = [(''malta'', True)], isValid = False\<rparr>,
      [Listed (resultHeaders locators) (Inr 5),
       ReadPageText ''body'' (Inr (Some ''Valletta, capital of Malta''))])"
  apply (simp add: page_defs)
  apply (subst validate_returns[where n=5 and content="''Valletta, capital of Malta''"])
     apply simp
    apply simp
   apply simp
  apply (simp add: eval_defs)
  done

lemma malta_found:
  "string_includes (toLowerCase asciiRuntime ''Valletta, capital of Malta'')
     (toLowerCase asciiRuntime ''malta'')"
  by (simp add: eval_defs)

lemma malta3_found:
  "filter (\<lambda>k. string_includes (toLowerCase asciiRuntime ''Valletta, capital of Malta'')
                 (toLowerCase asciiRuntime k))
      [''malta'', ''malta'', ''malta''] = [''malta'', ''malta'', ''malta'']"
  by (rule filter_True) (simp only: set_simps insert_iff empty_iff malta_found simp_thms ball_simps)

text \<open>
  Lists of expected keywords without \<^verbatim>\<open>__proto__\<close>: \<open>keywordMatches\<close> holds
  exactly one entry per distinct keyword, each with the presence of that keyword in the
  page text that was read; the number of true entries is the number of distinct
  keywords found, while the threshold is the ceiling of half the length of the whole
  list, duplicates included. Hence there is a list with duplicates that is judged
  invalid although all of its entries are found on the page.
\<close>

lemma duplicates_counted_once:
  assumes "''__proto__'' \<notin> set expectedKeywords"
    and "validateSearchResults rt pg expectedKeywords minResultCount h = (Inr r, es)"
  shows "(\<exists>content. ReadPageText ''body'' (Inr (Some content)) \<in> set es
      \<and> distinct (map fst (keywordMatches r))
      \<and> set (map fst (keywordMatches r)) = set expectedKeywords
      \<and> (\<forall>k \<in> set expectedKeywords.
            map_of (keywordMatches r) k = Some (string_includes (toLowerCase rt content) (toLowerCase rt k)))
      \<and> length (filter (\<lambda>m. m = True) (objectValues (keywordMatches r)))
          = card {k \<in> set expectedKeywords. string_includes (toLowerCase rt content) (toLowerCase rt k)}
      \<and> (isValid r \<longleftrightarrow>
            \<lceil>real (length expectedKeywords) / 2\<rceil>
              \<le> int (card {k \<in> set expectedKeywords.
                             string_includes (toLowerCase rt content) (toLowerCase rt k)})))
    \<and> (\<exists>pg' kws content r'.
          \<not> distinct kws
        \<and> validateSearchResults asciiRuntime pg' kws 3 [] =
            (Inr r', [Listed (resultHeaders locators) (Inr 5), ReadPageText ''body'' (Inr (Some content))])
        \<and> \<not> isValid r'
        \<and> length kws \<le> 2 * length (filter (\<lambda>k. string_includes (toLowerCase asciiRuntime content)
                                              (toLowerCase asciiRuntime k)) kws))"
proof (rule conjI)
  from assms(2) have "fst (validateSearchResults rt pg expectedKeywords minResultCount h) = Inr r"
    by simp
  from validate_Inr_cases[OF this] obtain n content where
    "on_all pg h (resultHeaders locators) = Inr n" "minResultCount \<le> int n"
    "on_pageTextContent pg (h @ [Listed (resultHeaders locators) (Inr n)]) ''body'' = Inr (Some content)"
    by blast
  from validate_returns[OF this, of rt expectedKeywords] assms(2)
  have km: "keywordMatches r = keywordLoop rt (toLowerCase rt content) expectedKeywords []"
    and v: "isValid r = (int (length (filter (\<lambda>m. m = True) (objectValues (keywordMatches r))))
                      \<ge> Math_ceil (real (length expectedKeywords) / 2))"
    and es: "es = [Listed (resultHeaders locators) (Inr n), ReadPageText ''body'' (Inr (Some content))]"
    by auto
  let ?found = "\<lambda>k. string_includes (toLowerCase rt content) (toLowerCase rt k)"
  have d: "distinct (map fst (keywordMatches r))"
    by (simp add: km keywordLoop_distinct)
  have keys: "set (map fst (keywordMatches r)) = set expectedKeywords"
    using assms(1) keywordLoop_keys[of rt "toLowerCase rt content" expectedKeywords "[]"]
    by (simp add: km)
  have look: "\<forall>k \<in> set expectedKeywords. map_of (keywordMatches r) k = Some (?found k)"
    using assms(1) by (auto simp: km keywordLoop_map_of)
  have "{k. map_of (keywordMatches r) k = Some True} = {k \<in> set expectedKeywords. ?found k}"
    using assms(1) by (auto simp: km keywordLoop_map_of split: if_splits)
  with count_true_card[OF d]
  have cnt: "length (filter (\<lambda>m. m = True) (objectValues (keywordMatches r)))
      = card {k \<in> set expectedKeywords. ?found k}"
    by simp
  have valid: "isValid r \<longleftrightarrow> \<lceil>real (length expectedKeywords) / 2\<rceil>
              \<le> int (card {k \<in> set expectedKeywords. ?found k})"
    using v cnt by (simp add: Math_ceil_def)
  show "\<exists>content. ReadPageText ''body'' (Inr (Some content)) \<in> set es
      \<and> distinct (map fst (keywordMatches r))
      \<and> set (map fst (keywordMatches r)) = set expectedKeywords
      \<and> (\<forall>k \<in> set expectedKeywords.
            map_of (keywordMatches r) k = Some (string_includes (toLowerCase rt content) (toLowerCase rt k)))
      \<and> length (filter (\<lambda>m. m = True) (objectValues (keywordMatches r)))
          = card {k \<in> set expectedKeywords. string_includes (toLowerCase rt content) (toLowerCase rt k)}
      \<and> (isValid r \<longleftrightarrow>
            \<lceil>real (length expectedKeywords) / 2\<rceil>
              \<le> int (card {k \<in> set expectedKeywords.
                             string_includes (toLowerCase rt content) (toLowerCase rt k)}))"
    apply (rule exI[of _ content])
    using d keys look cnt valid by (simp add: es)
next
  show "\<exists>pg' kws content r'.
          \<not> distinct kws
        \<and> validateSearchResults asciiRuntime pg' kws 3 [] =
            (Inr r', [Listed (resultHeaders locators) (Inr 5), ReadPageText ''body'' (Inr (Some content))])
        \<and> \<not> isValid r'
        \<and> length kws \<le> 2 * length (filter (\<lambda>k. string_includes (toLowerCase asciiRuntime content)
                                              (toLowerCase asciiRuntime k)) kws)"
    apply (rule exI[of _ vallettaPage])
    apply (rule exI[of _ "[''malta'', ''malta'', ''malta'']"])
    apply (rule exI[of _ "''Valletta, capital of Malta''"])
    apply (rule exI[of _ "\<lparr>totalResults = 5, keywordMatches = [(''malta'', True)], isValid = False\<rparr>"])
    apply (simp only: malta3_eval malta3_found)
    apply simp
    done
qed

text \<open>
  C10. The list \<^verbatim>\<open>["__proto__", "__proto__"]\<close> has duplicates and one distinct
  keyword, which is on the page; yet \<open>keywordMatches\<close> holds no entry for it, whatever
  the case mapping of the runtime, since the assignment
  \<^verbatim>\<open>keywordMatches[keyword] = isPresent\<close> stores nothing for this key.
\<close>

theorem C10_proto_duplicates_not_recorded:
  "fst (validateSearchResults rt protoPage [''__proto__'', ''__proto__''] 3 []) =
     Inr \<lparr>totalResults = 5, keywordMatches = [], isValid = False\<rparr>
   \<and> string_includes (toLowerCase asciiRuntime ''the __proto__ property'')
        (toLowerCase asciiRuntime ''__proto__'')"
  by (simp add: proto_eval) (simp add: eval_defs)

section \<open>Consent dialogs: auxiliary facts\<close>

text \<open>One pass of the loop, outcome by outcome.\<close>

lemma consentLoop_Cons:
  "consentLoop pg (s # ss) h =
     (let p = on_isVisible pg h (Locator s) 2000; e1 = Probed (Locator s) 2000 p in
      case p of
        Inl e \<Rightarrow> continue_with pg ss h [e1]
      | Inr False \<Rightarrow> continue_with pg ss h [e1]
      | Inr True \<Rightarrow>
          (case on_action pg (h @ [e1]) (Click (Locator s)) of
             Some e \<Rightarrow> continue_with pg ss h [e1, Did (Click (Locator s)) (Some e)]
           | None \<Rightarrow>
               (case on_action pg (h @ [e1, Did (Click (Locator s)) None]) (WaitForTimeout 1000) of
                  Some e \<Rightarrow> continue_with pg ss h
                     [e1, Did (Click (Locator s)) None, Did (WaitForTimeout 1000) (Some e)]
                | None \<Rightarrow> (Inr (), [e1, Did (Click (Locator s)) None, Did (WaitForTimeout 1000) None]))))"
  by (simp add: consentAttempt_def bind_def seq_def catch_with_def isVisible_def act_def return_def
      continue_with_def Let_def split: sum.splits option.splits prod.splits bool.splits)

declare consentLoop.simps [simp del]

lemma consentLoop_Nil: "consentLoop pg [] h = (Inr (), [])"
  by (simp add: consentLoop.simps return_def)

lemma consentLoop_never_fails: "fst (consentLoop pg ss h) = Inr ()"
proof (induction ss arbitrary: h)
  case Nil
  then show ?case by (simp add: consentLoop_Nil)
next
  case (Cons s ss)
  have c: "\<And>blk. fst (continue_with pg ss h blk) = Inr ()"
    using Cons.IH by (simp add: continue_with_def split: prod.splits) (metis fst_conv)
  show ?case
    by (simp add: consentLoop_Cons Let_def c split: sum.splits option.splits bool.splits)
qed

lemma consentLoop_probes_prefix: "prefix (probes (snd (consentLoop pg ss h))) (map Locator ss)"
proof (induction ss arbitrary: h)
  case Nil
  then show ?case by (simp add: consentLoop_Nil)
next
  case (Cons s ss)
  have c: "\<And>blk. snd (continue_with pg ss h blk) = blk @ snd (consentLoop pg ss (h @ blk))"
    by (simp add: continue_with_def split: prod.splits)
  show ?case
    using Cons.IH
    by (simp add: consentLoop_Cons Let_def c split: sum.splits option.splits bool.splits)
qed


lemma consentLoop_first_probe:
  "\<exists>r rest. snd (consentLoop pg (s # ss) h) = Probed (Locator s) 2000 r # rest"
  by (simp add: consentLoop_Cons Let_def continue_with_def
      split: sum.splits option.splits bool.splits prod.splits)

lemma consentLoop_after_visible:
  "snd (consentLoop pg ss h) = pre @ Probed l timeout (Inr True) # post \<Longrightarrow>
     \<exists>r rest. post = Did (Click l) r # rest \<and>
       (r = None \<longrightarrow> (\<exists>r' rest'. rest = Did (WaitForTimeout 1000) r' # rest' \<and>
          (r' = None \<longrightarrow> rest' = [])))"
proof (induction ss arbitrary: h pre)
  case Nil
  then show ?case by (simp add: consentLoop_Nil)
next
  case (Cons s ss)
  have c: "\<And>blk. snd (continue_with pg ss h blk) = blk @ snd (consentLoop pg ss (h @ blk))"
    by (simp add: continue_with_def split: prod.splits)
  show ?case
    using Cons.prems Cons.IH
    apply (simp add: consentLoop_Cons Let_def c
        split: sum.splits option.splits bool.splits if_splits)
    apply (auto simp: Cons_eq_append_conv)
    done
qed


lemma probes_append: "probes (xs @ ys) = probes xs @ probes ys"
  by (induction xs rule: probes.induct) auto


lemma snd_continue_with:
  "snd (continue_with pg ss h blk) = blk @ snd (consentLoop pg ss (h @ blk))"
  by (simp add: continue_with_def split: prod.splits)

lemma consentLoop_Cons_cases:
  obtains (stop) "snd (consentLoop pg (s # ss) h) =
        [Probed (Locator s) 2000 (Inr True), Did (Click (Locator s)) None, Did (WaitForTimeout 1000) None]"
  | (skip) blk where "skipped s blk"
      "snd (consentLoop pg (s # ss) h) = blk @ snd (consentLoop pg ss (h @ blk))"
proof -
  let ?P = "\<lambda>r. Probed (Locator s) 2000 r"
  let ?C = "\<lambda>r. Did (Click (Locator s)) r"
  let ?W = "\<lambda>r. Did (WaitForTimeout 1000) r"
  show ?thesis
  proof (cases "on_isVisible pg h (Locator s) 2000")
    case (Inl e)
    then have "snd (consentLoop pg (s # ss) h) = [?P (Inl e)] @ snd (consentLoop pg ss (h @ [?P (Inl e)]))"
      by (simp add: consentLoop_Cons snd_continue_with)
    moreover have "skipped s [?P (Inl e)]" by (simp add: skipped_def)
    ultimately show ?thesis using skip by blast
  next
    case (Inr v)
    show ?thesis
    proof (cases v)
      case False
      with Inr have "snd (consentLoop pg (s # ss) h) =
          [?P (Inr False)] @ snd (consentLoop pg ss (h @ [?P (Inr False)]))"
        by (simp add: consentLoop_Cons snd_continue_with)
      moreover have "skipped s [?P (Inr False)]" by (simp add: skipped_def)
      ultimately show ?thesis using skip by blast
    next
      case True
      show ?thesis
      proof (cases "on_action pg (h @ [?P (Inr True)]) (Click (Locator s))")
        case (Some e)
        with Inr True have "snd (consentLoop pg (s # ss) h) =
            [?P (Inr True), ?C (Some e)] @ snd (consentLoop pg ss (h @ [?P (Inr True), ?C (Some e)]))"
          by (simp add: consentLoop_Cons snd_continue_with)
        moreover have "skipped s [?P (Inr True), ?C (Some e)]" by (simp add: skipped_def)
        ultimately show ?thesis using skip by blast
      next
        case None
        note click = None
        show ?thesis
        proof (cases "on_action pg (h @ [?P (Inr True), ?C None]) (WaitForTimeout 1000)")
          case (Some e)
          with Inr True click have "snd (consentLoop pg (s # ss) h) =
              [?P (Inr True), ?C None, ?W (Some e)]
               @ snd (consentLoop pg ss (h @ [?P (Inr True), ?C None, ?W (Some e)]))"
            by (simp add: consentLoop_Cons snd_continue_with)
          moreover have "skipped s [?P (Inr True), ?C None, ?W (Some e)]" by (simp add: skipped_def)
          ultimately show ?thesis using skip by blast
        next
          case None
          with Inr True click have "snd (consentLoop pg (s # ss) h) = [?P (Inr True), ?C None, ?W None]"
            by (simp add: consentLoop_Cons)
          then show ?thesis using stop by blast
        qed
      qed
    qed
  qed
qed

lemma consentLoop_next:
  "(ss = [] \<and> snd (consentLoop pg ss h) = []) \<or>
   (\<exists>l r rest. snd (consentLoop pg ss h) = Probed l 2000 r # rest)"
proof (cases ss)
  case Nil
  then show ?thesis by (simp add: consentLoop_Nil)
next
  case (Cons s' ss')
  then show ?thesis using consentLoop_first_probe[of pg s' ss' h] by blast
qed

lemma skipped_split:
  assumes "skipped s blk" and "blk = pre @ ev # us"
    and "raised ev \<or> (\<exists>l timeout. ev = Probed l timeout (Inr False))"
  shows "us = []"
  using assms by (auto simp: skipped_def Cons_eq_append_conv append_eq_Cons_conv)

lemma skipped_probes: "skipped s blk \<Longrightarrow> probes blk = [Locator s]"
  by (auto simp: skipped_def)

lemma consentLoop_continues:
  "snd (consentLoop pg ss h) = pre @ ev # post \<Longrightarrow>
   raised ev \<or> (\<exists>l timeout. ev = Probed l timeout (Inr False)) \<Longrightarrow>
     (post = [] \<and> probes (snd (consentLoop pg ss h)) = map Locator ss) \<or>
     (\<exists>l r post'. post = Probed l 2000 r # post')"
proof (induction ss arbitrary: h pre)
  case Nil
  then show ?case by (simp add: consentLoop_Nil)
next
  case (Cons s ss)
  show ?case
  proof (cases rule: consentLoop_Cons_cases[of pg s ss h])
    case stop
    with Cons.prems show ?thesis by (auto simp: Cons_eq_append_conv)
  next
    case (skip blk)
    let ?es' = "snd (consentLoop pg ss (h @ blk))"
    from skip(2) Cons.prems(1) have eq: "blk @ ?es' = pre @ ev # post" by simp
    then consider (inblk) us where "blk = pre @ ev # us" "post = us @ ?es'"
      | (inrest) us where "pre = blk @ us" "?es' = us @ ev # post"
      by (auto simp: append_eq_append_conv2 Cons_eq_append_conv append_eq_Cons_conv)
    then show ?thesis
    proof cases
      case inblk
      from skipped_split[OF skip(1) inblk(1) Cons.prems(2)] have "us = []" .
      with inblk have post: "post = ?es'" by simp
      from consentLoop_next[of ss pg "h @ blk"] show ?thesis
      proof
        assume "ss = [] \<and> ?es' = []"
        then show ?thesis using post skip skipped_probes[OF skip(1)]
          by (simp add: probes_append consentLoop_Nil)
      next
        assume "\<exists>l r rest. ?es' = Probed l 2000 r # rest"
        then show ?thesis using post by simp
      qed
    next
      case inrest
      from Cons.IH[OF inrest(2) Cons.prems(2)] show ?thesis
        using skip skipped_probes[OF skip(1)] by (auto simp: probes_append)
    qed
  qed
qed

lemma consentLoop_ends:
  "probes (snd (consentLoop pg ss h)) = map Locator ss \<or>
   (\<exists>pre l. snd (consentLoop pg ss h) =
      pre @ [Probed l 2000 (Inr True), Did (Click l) None, Did (WaitForTimeout 1000) None])"
proof (induction ss arbitrary: h)
  case Nil
  then show ?case by (simp add: consentLoop_Nil)
next
  case (Cons s ss)
  show ?case
  proof (cases rule: consentLoop_Cons_cases[of pg s ss h])
    case stop
    then show ?thesis by simp
  next
    case (skip blk)
    from Cons.IH[of "h @ blk"] show ?thesis
    proof
      assume "probes (snd (consentLoop pg ss (h @ blk))) = map Locator ss"
      then show ?thesis using skip skipped_probes[OF skip(1)] by (simp add: probes_append)
    next
      assume "\<exists>pre l. snd (consentLoop pg ss (h @ blk)) =
        pre @ [Probed l 2000 (Inr True), Did (Click l) None, Did (WaitForTimeout 1000) None]"
      then obtain pre l where "snd (consentLoop pg ss (h @ blk)) =
        pre @ [Probed l 2000 (Inr True), Did (Click l) None, Did (WaitForTimeout 1000) None]"
        by blast
      with skip(2) have "snd (consentLoop pg (s # ss) h) =
        (blk @ pre) @ [Probed l 2000 (Inr True), Did (Click l) None, Did (WaitForTimeout 1000) None]"
        by simp
      then show ?thesis by blast
    qed
  qed
qed

section \<open>Claim on consent handling\<close>

text \<open>The example runs.\<close>

lemma consent_eval:
  "handleConsentDialogs consentPage [] =
     (Inr (),
      [Probed (Locator ''button:has-text(\"Accept all\")'') 2000
         (Inl \<lparr>errorName = ''Error'', message = ''strict mode violation''\<rparr>),
       Probed (Locator ''button:has-text(\"I agree\")'') 2000 (Inr True),
       Did (Click (Locator ''button:has-text(\"I agree\")'')) None,
       Did (WaitForTimeout 1000) None])"
  by (simp add: handleConsentDialogs_def consentSelectors_def consentLoop_Cons continue_with_def
      consentPage_def staticPage_def Let_def)

lemma covered_eval:
  "handleConsentDialogs coveredConsentPage [] =
     (Inr (),
      [Probed (Locator ''button:has-text(\"Accept all\")'') 2000 (Inr True),
       Did (Click (Locator ''button:has-text(\"Accept all\")''))
         (Some \<lparr>errorName = ''TimeoutError'', message = ''Timeout 30000ms exceeded.''\<rparr>),
       Probed (Locator ''button:has-text(\"I agree\")'') 2000 (Inr False),
       Probed (Locator ''button:has-text(\"Accept\")'') 2000 (Inr True),
       Did (Click (Locator ''button:has-text(\"Accept\")'')) None,
       Did (WaitForTimeout 1000) None])"
  by (simp add: handleConsentDialogs_def consentSelectors_def consentLoop_Cons continue_with_def
      coveredConsentPage_def staticPage_def Let_def)

text \<open>
  C6, as stated, fails on a page whose first consent button is visible but cannot be
  clicked: the first candidate is found visible and is clicked, the click throws, and
  the candidates after it are probed all the same, the third one being clicked in
  turn. So a candidate found visible does not end the probing by itself.
\<close>

theorem C6_rejected_click_counterexample:
  "snd (handleConsentDialogs coveredConsentPage []) =
     [Probed (Locator ''button:has-text(\"Accept all\")'') 2000 (Inr True),
      Did (Click (Locator ''button:has-text(\"Accept all\")''))
        (Some \<lparr>errorName = ''TimeoutError'', message = ''Timeout 30000ms exceeded.''\<rparr>),
      Probed (Locator ''button:has-text(\"I agree\")'') 2000 (Inr False),
      Probed (Locator ''button:has-text(\"Accept\")'') 2000 (Inr True),
      Did (Click (Locator ''button:has-text(\"Accept\")'')) None,
      Did (WaitForTimeout 1000) None]"
  by (simp add: covered_eval)

text \<open>
  C6, amended. \<open>handleConsentDialogs\<close> never throws. It starts by probing the first
  consent selector, for 2000 ms, and the selectors it probes are, in order, an initial
  part of \<open>consentSelectors\<close>. A probe that answers visible is followed at once by the
  click on the same locator; when the click resolves the delay of one second follows,
  and when that resolves too the log ends there: no further selector is probed. A call
  that throws (the probe, the click or the delay) and a probe that answers not visible
  are followed by the probe of the next selector, unless all selectors have been
  probed. So the run ends either with all selectors probed or with a visible probe, a
  resolved click and a resolved delay.
\<close>

theorem C6_consent_stops_after_settled_click:
  "fst (handleConsentDialogs pg h) = Inr ()
   \<and> (\<exists>r rest. snd (handleConsentDialogs pg h) =
         Probed (Locator ''button:has-text(\"Accept all\")'') 2000 r # rest)
   \<and> prefix (probes (snd (handleConsentDialogs pg h))) (map Locator consentSelectors)
   \<and> (\<forall>pre l timeout post.
         snd (handleConsentDialogs pg h) = pre @ Probed l timeout (Inr True) # post \<longrightarrow>
         (\<exists>r rest. post = Did (Click l) r # rest \<and>
            (r = None \<longrightarrow> (\<exists>r' rest'. rest = Did (WaitForTimeout 1000) r' # rest' \<and>
               (r' = None \<longrightarrow> rest' = [])))))
   \<and> (\<forall>pre ev post.
         snd (handleConsentDialogs pg h) = pre @ ev # post \<and>
         (raised ev \<or> (\<exists>l timeout. ev = Probed l timeout (Inr False))) \<longrightarrow>
         (post = [] \<and> probes (snd (handleConsentDialogs pg h)) = map Locator consentSelectors) \<or>
         (\<exists>l r post'. post = Probed l 2000 r # post'))
   \<and> (probes (snd (handleConsentDialogs pg h)) = map Locator consentSelectors \<or>
       (\<exists>pre l. snd (handleConsentDialogs pg h) =
          pre @ [Probed l 2000 (Inr True), Did (Click l) None, Did (WaitForTimeout 1000) None]))"
proof -
  have first: "\<exists>r rest. snd (handleConsentDialogs pg h) =
         Probed (Locator ''button:has-text(\"Accept all\")'') 2000 r # rest"
    unfolding handleConsentDialogs_def consentSelectors_def by (rule consentLoop_first_probe)
  show ?thesis
    using first
    unfolding handleConsentDialogs_def
    using consentLoop_never_fails[of pg consentSelectors h]
      consentLoop_probes_prefix[of pg consentSelectors h]
      consentLoop_after_visible[of pg consentSelectors h]
      consentLoop_continues[of pg consentSelectors h]
      consentLoop_ends[of pg consentSelectors h]
    by blast
qed

text \<open>On the first page the first selector throws, the second is visible and clicked,
  the third and fourth are never probed. On the second page the click on the first
  selector throws and the probing goes on until the click on the third has settled.\<close>

theorem C6_consent_stops_after_settled_click_witness:
  "snd (handleConsentDialogs consentPage []) =
     [Probed (Locator ''button:has-text(\"Accept all\")'') 2000
         (Inl \<lparr>errorName = ''Error'', message = ''strict mode violation''\<rparr>),
       Probed (Locator ''button:has-text(\"I agree\")'') 2000 (Inr True),
       Did (Click (Locator ''button:has-text(\"I agree\")'')) None,
       Did (WaitForTimeout 1000) None]
   \<and> raised (Probed (Locator ''button:has-text(\"Accept all\")'') 2000
         (Inl \<lparr>errorName = ''Error'', message = ''strict mode violation''\<rparr>))
   \<and> fst (handleConsentDialogs consentPage []) = Inr ()
   \<and> probes (snd (handleConsentDialogs consentPage [])) =
       [Locator ''button:has-text(\"Accept all\")'', Locator ''button:has-text(\"I agree\")'']
   \<and> fst (handleConsentDialogs coveredConsentPage []) = Inr ()
   \<and> probes (snd (handleConsentDialogs coveredConsentPage [])) =
       [Locator ''button:has-text(\"Accept all\")'', Locator ''button:has-text(\"I agree\")'',
        Locator ''button:has-text(\"Accept\")'']"
  using C6_consent_stops_after_settled_click [of consentPage "[]"]
    C6_consent_stops_after_settled_click [of coveredConsentPage "[]"]
  by (simp add: consent_eval covered_eval)

section \<open>Search execution and navigation: auxiliary facts\<close>

text \<open>\<open>executeSearch\<close> as a run of actions, and its runs outcome by outcome.\<close>

lemma seq_return: "seq m (return ()) = m"
  by (rule ext) (simp add: seq_def bind_def return_def split: prod.splits sum.splits)

lemma return_seq: "seq (return ()) m = m"
  by (rule ext) (simp add: seq_def bind_def return_def split: prod.splits sum.splits)

lemma seq_assoc: "seq (seq a b) c = seq a (seq b c)"
  by (rule ext) (simp add: seq_def bind_def split: prod.splits sum.splits)

lemma acts_append: "acts pg (xs @ ys) = seq (acts pg xs) (acts pg ys)"
  by (induction xs) (simp_all add: return_seq seq_assoc)

lemma executeSearch_acts:
  "executeSearch pg searchTerm =
     catch_with
       (seq (act pg (WaitForSelector (searchBox locators) 10000 (Some ''visible'')))
       (bind (url pg) (\<lambda>currentUrl. acts pg (searchScript currentUrl searchTerm))))
       (\<lambda>error. throw \<lparr>errorName = ''Error'', message = ''Search execution failed: '' @ message error\<rparr>)"
  unfolding executeSearch_def searchScript_def inputScript_def
  by (simp add: acts_append if_distrib[of "acts pg"] seq_return cong: if_cong)


lemma acts_Nil: "acts pg [] h = (Inr (), [])"
  by (simp add: return_def)

lemma acts_Cons:
  "acts pg (a # as) h =
     (case on_action pg h a of
        Some e \<Rightarrow> (Inl e, [Did a (Some e)])
      | None \<Rightarrow> (case acts pg as (h @ [Did a None]) of (r, es) \<Rightarrow> (r, Did a None # es)))"
  by (simp add: seq_def bind_def act_def split: option.splits)

declare acts.simps [simp del]

lemma acts5_cases:
  obtains
    (fail1) e where "acts pg [a1, a2, a3, a4, a5] h = (Inl e, [Did a1 (Some e)])"
  | (fail2) e where "acts pg [a1, a2, a3, a4, a5] h = (Inl e, [Did a1 None, Did a2 (Some e)])"
  | (fail3) e where "acts pg [a1, a2, a3, a4, a5] h =
        (Inl e, [Did a1 None, Did a2 None, Did a3 (Some e)])"
  | (fail4) e where "acts pg [a1, a2, a3, a4, a5] h =
        (Inl e, [Did a1 None, Did a2 None, Did a3 None, Did a4 (Some e)])"
  | (fail5) e where "acts pg [a1, a2, a3, a4, a5] h =
        (Inl e, [Did a1 None, Did a2 None, Did a3 None, Did a4 None, Did a5 (Some e)])"
  | (done5) "acts pg [a1, a2, a3, a4, a5] h =
        (Inr (), [Did a1 None, Did a2 None, Did a3 None, Did a4 None, Did a5 None])"
proof -
  have "(\<exists>e. acts pg [a1, a2, a3, a4, a5] h = (Inl e, [Did a1 (Some e)]))
      \<or> (\<exists>e. acts pg [a1, a2, a3, a4, a5] h = (Inl e, [Did a1 None, Did a2 (Some e)]))
      \<or> (\<exists>e. acts pg [a1, a2, a3, a4, a5] h = (Inl e, [Did a1 None, Did a2 None, Did a3 (Some e)]))
      \<or> (\<exists>e. acts pg [a1, a2, a3, a4, a5] h =
            (Inl e, [Did a1 None, Did a2 None, Did a3 None, Did a4 (Some e)]))
      \<or> (\<exists>e. acts pg [a1, a2, a3, a4, a5] h =
            (Inl e, [Did a1 None, Did a2 None, Did a3 None, Did a4 None, Did a5 (Some e)]))
      \<or> acts pg [a1, a2, a3, a4, a5] h =
            (Inr (), [Did a1 None, Did a2 None, Did a3 None, Did a4 None, Did a5 None])"
    by (simp add: acts_Cons acts_Nil split: option.splits)
  then show ?thesis using fail1 fail2 fail3 fail4 fail5 done5 by blast
qed

lemma executeSearch_cases:
  obtains
    (noInput) e where
      "executeSearch pg searchTerm h =
         (Inl (searchFailure e),
          [Did (WaitForSelector (searchBox locators) 10000 (Some ''visible'')) (Some e)])"
  | (noGoto) u e where "string_includes u ''tbm=isch''"
      "executeSearch pg searchTerm h =
         (Inl (searchFailure e),
          [Did (WaitForSelector (searchBox locators) 10000 (Some ''visible'')) None, ReadUrl u,
           Did (Goto ''https://www.google.com'' None) (Some e)])"
  | (noTextarea) u e where "string_includes u ''tbm=isch''"
      "executeSearch pg searchTerm h =
         (Inl (searchFailure e),
          [Did (WaitForSelector (searchBox locators) 10000 (Some ''visible'')) None, ReadUrl u,
           Did (Goto ''https://www.google.com'' None) None,
           Did (WaitForSelector ''textarea[name=\"q\"]'' 5000 None) (Some e)])"
  | (typed) before where
      "(\<exists>u. \<not> string_includes u ''tbm=isch'' \<and>
            before = [Did (WaitForSelector (searchBox locators) 10000 (Some ''visible'')) None, ReadUrl u])
       \<or> (\<exists>u. string_includes u ''tbm=isch'' \<and>
            before = [Did (WaitForSelector (searchBox locators) 10000 (Some ''visible'')) None, ReadUrl u,
           Did (Goto ''https://www.google.com'' None) None,
           Did (WaitForSelector ''textarea[name=\"q\"]'' 5000 None) None])"
      "executeSearch pg searchTerm h =
         (wrapped searchFailure (fst (acts pg (inputScript searchTerm) (h @ before))),
          before @ snd (acts pg (inputScript searchTerm) (h @ before)))"
proof -
  let ?w = "WaitForSelector (searchBox locators) 10000 (Some ''visible'')"
  show ?thesis
  proof (cases "on_action pg h ?w")
    case (Some e)
    then have "executeSearch pg searchTerm h = (Inl (searchFailure e), [Did ?w (Some e)])"
      by (simp add: executeSearch_acts catch_with_def seq_def bind_def act_def throw_def searchFailure_def)
    then show ?thesis using noInput by blast
  next
    case None
    let ?h1 = "h @ [Did ?w None]"
    let ?u = "on_url pg ?h1"
    let ?h2 = "?h1 @ [ReadUrl ?u]"
    have start: "executeSearch pg searchTerm h =
        (case acts pg (searchScript ?u searchTerm) ?h2 of
           (r, es) \<Rightarrow> (wrapped searchFailure r, [Did ?w None, ReadUrl ?u] @ es))"
      using None
      by (simp add: executeSearch_acts catch_with_def seq_def bind_def act_def throw_def url_def
          searchFailure_def wrapped_def split: prod.splits sum.splits)
    show ?thesis
    proof (cases "string_includes ?u ''tbm=isch''")
      case False
      then have "searchScript ?u searchTerm = inputScript searchTerm"
        by (simp add: searchScript_def inputScript_def)
      with start have "executeSearch pg searchTerm h =
         (wrapped searchFailure (fst (acts pg (inputScript searchTerm) (h @ [Did ?w None, ReadUrl ?u]))),
          [Did ?w None, ReadUrl ?u] @ snd (acts pg (inputScript searchTerm) (h @ [Did ?w None, ReadUrl ?u])))"
        by (simp split: prod.splits)
      with False show ?thesis using typed[of "[Did ?w None, ReadUrl ?u]"] by blast
    next
      case True
      let ?g = "Goto ''https://www.google.com'' None"
      let ?t = "WaitForSelector ''textarea[name=\"q\"]'' 5000 None"
      from True have script: "searchScript ?u searchTerm = ?g # ?t # inputScript searchTerm"
        by (simp add: searchScript_def inputScript_def)
      show ?thesis
      proof (cases "on_action pg ?h2 ?g")
        case (Some e)
        with start script have "executeSearch pg searchTerm h =
            (Inl (searchFailure e), [Did ?w None, ReadUrl ?u, Did ?g (Some e)])"
          by (simp add: acts_Cons wrapped_def)
        with True show ?thesis using noGoto by blast
      next
        case None
        note goto = None
        show ?thesis
        proof (cases "on_action pg (?h2 @ [Did ?g None]) ?t")
          case (Some e)
          with start script goto have "executeSearch pg searchTerm h =
              (Inl (searchFailure e), [Did ?w None, ReadUrl ?u, Did ?g None, Did ?t (Some e)])"
            by (simp add: acts_Cons wrapped_def)
          with True show ?thesis using noTextarea by blast
        next
          case None
          with start script goto have "executeSearch pg searchTerm h =
             (wrapped searchFailure (fst (acts pg (inputScript searchTerm)
                 (h @ [Did ?w None, ReadUrl ?u, Did ?g None, Did ?t None]))),
              [Did ?w None, ReadUrl ?u, Did ?g None, Did ?t None]
               @ snd (acts pg (inputScript searchTerm) (h @ [Did ?w None, ReadUrl ?u, Did ?g None, Did ?t None])))"
            by (simp add: acts_Cons split: prod.splits)
          with True show ?thesis using typed[of "[Did ?w None, ReadUrl ?u, Did ?g None, Did ?t None]"] by blast
        qed
      qed
    qed
  qed
qed


lemmas input_cases =
  acts5_cases[of _ "Click searchInput" "Clear searchInput" "Fill searchInput searchTerm"
    "Press searchInput ''Enter''"
    "WaitForSelector (resultContainers locators) (waitTimeout config) None" for searchTerm,
    folded inputScript_def]

lemma executeSearch_clear_before_fill:
  assumes "Did (Fill loc v) res \<in> set (snd (executeSearch pg searchTerm h))"
  shows "loc = searchInput \<and> v = searchTerm \<and>
     sublist [Did (Clear searchInput) None, Did (Fill searchInput searchTerm) res]
       (snd (executeSearch pg searchTerm h))"
proof (cases rule: executeSearch_cases[of pg searchTerm h])
  case (noInput e)
  with assms show ?thesis by simp
next
  case (noGoto u e)
  with assms show ?thesis by simp
next
  case (noTextarea u e)
  with assms show ?thesis by simp
next
  case (typed before)
  show ?thesis
    by (cases rule: input_cases[of pg searchTerm "h @ before"])
       (use assms typed in \<open>auto simp: sublist_code\<close>)
qed

text \<open>Properties of every run of \<open>executeSearch\<close>, and the runs of
  \<open>navigateToSearchEngine\<close>.\<close>

lemma executeSearch_enter_after_fill:
  assumes "Did (Fill searchInput searchTerm) None \<in> set (snd (executeSearch pg searchTerm h))"
  shows "\<exists>res. sublist [Did (Fill searchInput searchTerm) None, Did (Press searchInput ''Enter'') res]
       (snd (executeSearch pg searchTerm h))"
proof (cases rule: executeSearch_cases[of pg searchTerm h])
  case (noInput e)
  with assms show ?thesis by simp
next
  case (noGoto u e)
  with assms show ?thesis by simp
next
  case (noTextarea u e)
  with assms show ?thesis by simp
next
  case (typed before)
  show ?thesis
    by (cases rule: input_cases[of pg searchTerm "h @ before"])
       (use assms typed in \<open>auto simp: sublist_code\<close>)
qed

lemma executeSearch_only_input_actions:
  assumes "Did a res \<in> set (snd (executeSearch pg searchTerm h))"
  shows "a \<in> {WaitForSelector (searchBox locators) 10000 (Some ''visible''),
              Goto ''https://www.google.com'' None,
              WaitForSelector ''textarea[name=\"q\"]'' 5000 None,
              Click searchInput, Clear searchInput, Fill searchInput searchTerm,
              Press searchInput ''Enter'',
              WaitForSelector (resultContainers locators) (waitTimeout config) None}"
proof (cases rule: executeSearch_cases[of pg searchTerm h])
  case (noInput e)
  with assms show ?thesis by simp
next
  case (noGoto u e)
  with assms show ?thesis by auto
next
  case (noTextarea u e)
  with assms show ?thesis by auto
next
  case (typed before)
  show ?thesis
    by (cases rule: input_cases[of pg searchTerm "h @ before"])
       (use assms typed in auto)
qed

lemma executeSearch_wait_after_enter:
  assumes "Did (Press searchInput ''Enter'') None \<in> set (snd (executeSearch pg searchTerm h))"
  shows "\<exists>res. suffix [Did (Press searchInput ''Enter'') None,
                       Did (WaitForSelector (resultContainers locators) (waitTimeout config) None) res]
                 (snd (executeSearch pg searchTerm h))
           \<and> fst (executeSearch pg searchTerm h) =
               (case res of None \<Rightarrow> Inr () | Some e \<Rightarrow> Inl (searchFailure e))"
proof (cases rule: executeSearch_cases[of pg searchTerm h])
  case (noInput e)
  with assms show ?thesis by simp
next
  case (noGoto u e)
  with assms show ?thesis by simp
next
  case (noTextarea u e)
  with assms show ?thesis by simp
next
  case (typed before)
  show ?thesis
    by (cases rule: input_cases[of pg searchTerm "h @ before"])
       (use assms typed in \<open>auto simp: suffix_Cons wrapped_def suffix_append\<close>)
qed

lemma executeSearch_success:
  assumes "fst (executeSearch pg searchTerm h) = Inr ()"
  shows "suffix [Did (Click searchInput) None, Did (Clear searchInput) None,
                 Did (Fill searchInput searchTerm) None, Did (Press searchInput ''Enter'') None,
                 Did (WaitForSelector (resultContainers locators) (waitTimeout config) None) None]
           (snd (executeSearch pg searchTerm h))
         \<and> fieldAfter v (snd (executeSearch pg searchTerm h)) = searchTerm"
proof (cases rule: executeSearch_cases[of pg searchTerm h])
  case (noInput e)
  with assms show ?thesis by simp
next
  case (noGoto u e)
  with assms show ?thesis by simp
next
  case (noTextarea u e)
  with assms show ?thesis by simp
next
  case (typed before)
  show ?thesis
    by (cases rule: input_cases[of pg searchTerm "h @ before"])
       (use assms typed in \<open>auto simp: suffix_Cons wrapped_def suffix_append\<close>)
qed




lemma executeSearch_first_event:
  "\<exists>r rest. snd (executeSearch pg searchTerm h) =
      Did (WaitForSelector (searchBox locators) 10000 (Some ''visible'')) r # rest"
proof (cases rule: executeSearch_cases[of pg searchTerm h])
  case (noInput e)
  then show ?thesis by simp
next
  case (noGoto u e)
  then show ?thesis by simp
next
  case (noTextarea u e)
  then show ?thesis by simp
next
  case (typed before)
  then show ?thesis by auto
qed

lemma executeSearch_start:
  assumes "Did (WaitForSelector (searchBox locators) 10000 (Some ''visible'')) None
             \<in> set (snd (executeSearch pg searchTerm h))"
  shows "\<exists>u r. prefix [Did (WaitForSelector (searchBox locators) 10000 (Some ''visible'')) None,
                        ReadUrl u,
                        Did (if string_includes u ''tbm=isch''
                             then Goto ''https://www.google.com'' None
                             else Click searchInput) r]
                  (snd (executeSearch pg searchTerm h))"
proof (cases rule: executeSearch_cases[of pg searchTerm h])
  case (noInput e)
  with assms show ?thesis by simp
next
  case (noGoto u e)
  then show ?thesis by auto
next
  case (noTextarea u e)
  then show ?thesis by (auto simp: prefix_Cons)
next
  case (typed before)
  show ?thesis
    by (cases rule: input_cases[of pg searchTerm "h @ before"])
       (use typed in \<open>auto simp: prefix_Cons\<close>)
qed

lemma executeSearch_after_goto:
  assumes "Did (Goto ''https://www.google.com'' None) None \<in> set (snd (executeSearch pg searchTerm h))"
  shows "\<exists>r. sublist [Did (Goto ''https://www.google.com'' None) None,
                      Did (WaitForSelector ''textarea[name=\"q\"]'' 5000 None) r]
                (snd (executeSearch pg searchTerm h))
            \<and> (r = None \<longrightarrow> (\<exists>r'. sublist [Did (WaitForSelector ''textarea[name=\"q\"]'' 5000 None) None,
                      Did (Click searchInput) r'] (snd (executeSearch pg searchTerm h))))"
proof (cases rule: executeSearch_cases[of pg searchTerm h])
  case (noInput e)
  with assms show ?thesis by simp
next
  case (noGoto u e)
  with assms show ?thesis by simp
next
  case (noTextarea u e)
  with assms show ?thesis by (simp add: sublist_code)
next
  case (typed before)
  show ?thesis
    by (cases rule: input_cases[of pg searchTerm "h @ before"])
       (use assms typed in \<open>auto simp: sublist_code\<close>)
qed

lemma executeSearch_clear_after_click:
  assumes "Did (Click searchInput) None \<in> set (snd (executeSearch pg searchTerm h))"
  shows "\<exists>r. sublist [Did (Click searchInput) None, Did (Clear searchInput) r]
                (snd (executeSearch pg searchTerm h))
            \<and> (r = None \<longrightarrow> (\<exists>r'. sublist [Did (Clear searchInput) None,
                      Did (Fill searchInput searchTerm) r'] (snd (executeSearch pg searchTerm h))))"
proof (cases rule: executeSearch_cases[of pg searchTerm h])
  case (noInput e)
  with assms show ?thesis by simp
next
  case (noGoto u e)
  with assms show ?thesis by simp
next
  case (noTextarea u e)
  with assms show ?thesis by simp
next
  case (typed before)
  show ?thesis
    by (cases rule: input_cases[of pg searchTerm "h @ before"])
       (use assms typed in \<open>auto simp: sublist_code\<close>)
qed

lemma executeSearch_returns_iff:
  "fst (executeSearch pg searchTerm h) = Inr () \<longleftrightarrow>
     (\<forall>ev \<in> set (snd (executeSearch pg searchTerm h)). \<not> raised ev)"
proof (cases rule: executeSearch_cases[of pg searchTerm h])
  case (noInput e)
  then show ?thesis by simp
next
  case (noGoto u e)
  then show ?thesis by simp
next
  case (noTextarea u e)
  then show ?thesis by simp
next
  case (typed before)
  show ?thesis
    by (cases rule: input_cases[of pg searchTerm "h @ before"])
       (use typed in \<open>auto simp: wrapped_def\<close>)
qed

lemma executeSearch_rejected_call:
  assumes "Did a (Some cause) \<in> set (snd (executeSearch pg searchTerm h))"
  shows "suffix [Did a (Some cause)] (snd (executeSearch pg searchTerm h))
       \<and> fst (executeSearch pg searchTerm h) = Inl (searchFailure cause)"
proof (cases rule: executeSearch_cases[of pg searchTerm h])
  case (noInput e)
  with assms show ?thesis by simp
next
  case (noGoto u e)
  with assms show ?thesis by (simp add: suffix_Cons)
next
  case (noTextarea u e)
  with assms show ?thesis by (simp add: suffix_Cons)
next
  case (typed before)
  show ?thesis
    by (cases rule: input_cases[of pg searchTerm "h @ before"])
       (use assms typed in \<open>auto simp: wrapped_def suffix_Cons suffix_append\<close>)
qed

lemmas run_defs = executeSearch_acts searchScript_def inputScript_def acts_Cons acts_Nil
  catch_with_def seq_def bind_def act_def url_def throw_def return_def

lemma executeSearch_all_resolve:
  assumes "\<forall>h' a. on_action pg h' a = None"
  shows "fst (executeSearch pg searchTerm h) = Inr ()"
  by (simp add: run_defs assms)




section \<open>Claims on search execution and navigation\<close>

text \<open>The example runs.\<close>

lemma home_search_eval:
  "executeSearch homePage ''ftira'' [] =
     (Inr (),
      [Did (WaitForSelector (searchBox locators) 10000 (Some ''visible'')) None,
       ReadUrl ''https://www.google.com/'',
       Did (Click searchInput) None, Did (Clear searchInput) None,
       Did (Fill searchInput ''ftira'') None, Did (Press searchInput ''Enter'') None,
       Did (WaitForSelector (resultContainers locators) (waitTimeout config) None) None])"
  by (simp add: run_defs homePage_def staticPage_def)



lemma noResults_search_eval:
  "executeSearch noResultsPage ''ftira'' [] =
     (Inl \<lparr>errorName = ''Error'', message = ''Search execution failed: Timeout 10000ms exceeded.''\<rparr>,
      [Did (WaitForSelector (searchBox locators) 10000 (Some ''visible'')) None,
       ReadUrl ''https://www.google.com/'',
       Did (Click searchInput) None, Did (Clear searchInput) None,
       Did (Fill searchInput ''ftira'') None, Did (Press searchInput ''Enter'') None,
       Did (WaitForSelector (resultContainers locators) (waitTimeout config) None)
         (Some \<lparr>errorName = ''TimeoutError'', message = ''Timeout 10000ms exceeded.''\<rparr>)])"
  by (simp add: run_defs noResultsPage_def staticPage_def locators_def)

lemma images_search_eval:
  "executeSearch imagesPage ''ftira'' [] =
     (Inr (),
      [Did (WaitForSelector (searchBox locators) 10000 (Some ''visible'')) None,
       ReadUrl ''https://www.google.com/?tbm=isch'',
       Did (Goto ''https://www.google.com'' None) None,
       Did (WaitForSelector ''textarea[name=\"q\"]'' 5000 None) None,
       Did (Click searchInput) None, Did (Clear searchInput) None,
       Did (Fill searchInput ''ftira'') None, Did (Press searchInput ''Enter'') None,
       Did (WaitForSelector (resultContainers locators) (waitTimeout config) None) None])"
  by (simp add: run_defs imagesPage_def staticPage_def)


text \<open>The alternatives of the specification are the parts of the code's selector
  list.\<close>

lemma searchBox_alternatives:
  "searchBox locators = spec_searchInputAlternatives ! 0 @ '', '' @ spec_searchInputAlternatives ! 1"
  by (simp add: locators_def spec_searchInputAlternatives_def)

text \<open>
  C8. Every run of \<open>executeSearch\<close> starts with the wait for the search box. When that
  wait resolves the address is read and, unless it is the image search (then the home
  page is loaded and its query field awaited first), the search input is clicked; a
  resolved click is followed at once by the \<^verbatim>\<open>clear\<close> of the same element, a resolved
  \<^verbatim>\<open>clear\<close> by the \<^verbatim>\<open>fill\<close>. A \<^verbatim>\<open>fill\<close> is on the search input, with the search
  term, and comes right after a resolved \<^verbatim>\<open>clear\<close> of the same element; a resolved
  \<^verbatim>\<open>fill\<close> is followed at once by the key press Enter on the same element; nothing
  but the search input is ever clicked and no other key is pressed, so no submit button
  is used; a resolved key press is followed by the wait for \<open>resultContainers locators\<close>
  with the configured \<open>waitTimeout\<close> (10000), which is the last call, and the search
  returns if that wait resolves and throws, with the cause's message, if it rejects. A
  call that rejects is the last one, and the search throws with its message. The search
  returns exactly when no call has rejected, so it does on a page where every action
  resolves. When the search returns, the log ends with click, clear, fill, Enter and
  the wait, all resolved, and the field holds exactly the search term whatever it held
  before.
\<close>

theorem C8_executeSearch_clear_fill_enter_wait:
  "(let es = snd (executeSearch pg searchTerm h); result = fst (executeSearch pg searchTerm h) in
     (\<exists>r rest. es = Did (WaitForSelector (searchBox locators) 10000 (Some ''visible'')) r # rest)
   \<and> (Did (WaitForSelector (searchBox locators) 10000 (Some ''visible'')) None \<in> set es \<longrightarrow>
        (\<exists>u r. prefix [Did (WaitForSelector (searchBox locators) 10000 (Some ''visible'')) None,
                        ReadUrl u,
                        Did (if string_includes u ''tbm=isch''
                             then Goto ''https://www.google.com'' None
                             else Click searchInput) r] es))
   \<and> (Did (Goto ''https://www.google.com'' None) None \<in> set es \<longrightarrow>
        (\<exists>r. sublist [Did (Goto ''https://www.google.com'' None) None,
                       Did (WaitForSelector ''textarea[name=\"q\"]'' 5000 None) r] es
           \<and> (r = None \<longrightarrow>
                (\<exists>r'. sublist [Did (WaitForSelector ''textarea[name=\"q\"]'' 5000 None) None,
                                Did (Click searchInput) r'] es))))
   \<and> (Did (Click searchInput) None \<in> set es \<longrightarrow>
        (\<exists>r. sublist [Did (Click searchInput) None, Did (Clear searchInput) r] es
           \<and> (r = None \<longrightarrow>
                (\<exists>r'. sublist [Did (Clear searchInput) None,
                                Did (Fill searchInput searchTerm) r'] es))))
   \<and> (\<forall>loc v res. Did (Fill loc v) res \<in> set es \<longrightarrow>
        loc = searchInput \<and> v = searchTerm \<and>
        sublist [Did (Clear searchInput) None, Did (Fill searchInput searchTerm) res] es)
   \<and> (Did (Fill searchInput searchTerm) None \<in> set es \<longrightarrow>
        (\<exists>res. sublist [Did (Fill searchInput searchTerm) None,
                         Did (Press searchInput ''Enter'') res] es))
   \<and> (\<forall>loc res. Did (Click loc) res \<in> set es \<longrightarrow> loc = searchInput)
   \<and> (\<forall>loc k res. Did (Press loc k) res \<in> set es \<longrightarrow> loc = searchInput \<and> k = ''Enter'')
   \<and> (Did (Press searchInput ''Enter'') None \<in> set es \<longrightarrow>
        (\<exists>res. suffix [Did (Press searchInput ''Enter'') None,
                        Did (WaitForSelector (resultContainers locators) (waitTimeout config) None) res] es
           \<and> result =
               (case res of
                  None \<Rightarrow> Inr ()
                | Some e \<Rightarrow> Inl \<lparr>errorName = ''Error'',
                                  message = ''Search execution failed: '' @ message e\<rparr>)))
   \<and> (\<forall>a cause. Did a (Some cause) \<in> set es \<longrightarrow>
        suffix [Did a (Some cause)] es
        \<and> result = Inl \<lparr>errorName = ''Error'',
                         message = ''Search execution failed: '' @ message cause\<rparr>)
   \<and> (result = Inr () \<longleftrightarrow> (\<forall>ev \<in> set es. \<not> raised ev))
   \<and> ((\<forall>h' a. on_action pg h' a = None) \<longrightarrow> result = Inr ())
   \<and> (result = Inr () \<longrightarrow>
        suffix [Did (Click searchInput) None, Did (Clear searchInput) None,
                Did (Fill searchInput searchTerm) None, Did (Press searchInput ''Enter'') None,
                Did (WaitForSelector (resultContainers locators) (waitTimeout config) None) None] es
        \<and> (\<forall>v. fieldAfter v es = searchTerm))
   \<and> waitTimeout config = 10000)"
proof -
  let ?es = "snd (executeSearch pg searchTerm h)"
  let ?result = "fst (executeSearch pg searchTerm h)"
  have a: "\<And>loc v res. Did (Fill loc v) res \<in> set ?es \<Longrightarrow>
        loc = searchInput \<and> v = searchTerm \<and>
        sublist [Did (Clear searchInput) None, Did (Fill searchInput searchTerm) res] ?es"
    by (rule executeSearch_clear_before_fill)
  have b: "\<And>loc res. Did (Click loc) res \<in> set ?es \<Longrightarrow> loc = searchInput"
    using executeSearch_only_input_actions[of _ _ pg searchTerm h] by auto
  have c: "\<And>loc k res. Did (Press loc k) res \<in> set ?es \<Longrightarrow> loc = searchInput \<and> k = ''Enter''"
    using executeSearch_only_input_actions[of _ _ pg searchTerm h] by auto
  have d: "Did (Press searchInput ''Enter'') None \<in> set ?es \<Longrightarrow>
        (\<exists>res. suffix [Did (Press searchInput ''Enter'') None,
                        Did (WaitForSelector (resultContainers locators) (waitTimeout config) None) res] ?es
           \<and> ?result =
               (case res of
                  None \<Rightarrow> Inr ()
                | Some e \<Rightarrow> Inl \<lparr>errorName = ''Error'',
                                  message = ''Search execution failed: '' @ message e\<rparr>))"
    using executeSearch_wait_after_enter[of pg searchTerm h] unfolding searchFailure_def by blast
  have e: "?result = Inr () \<Longrightarrow>
        suffix [Did (Click searchInput) None, Did (Clear searchInput) None,
                Did (Fill searchInput searchTerm) None, Did (Press searchInput ''Enter'') None,
                Did (WaitForSelector (resultContainers locators) (waitTimeout config) None) None] ?es
        \<and> (\<forall>v. fieldAfter v ?es = searchTerm)"
    using executeSearch_success[of pg searchTerm h] by blast
  have f: "waitTimeout config = 10000" by (simp add: config_def)
  have g: "\<And>a cause. Did a (Some cause) \<in> set ?es \<Longrightarrow>
        suffix [Did a (Some cause)] ?es
        \<and> ?result = Inl \<lparr>errorName = ''Error'',
                         message = ''Search execution failed: '' @ message cause\<rparr>"
    using executeSearch_rejected_call[of _ _ pg searchTerm h] unfolding searchFailure_def by blast
  show ?thesis
    unfolding Let_def
    apply (intro conjI allI impI)
                     apply (rule executeSearch_first_event)
                    apply (erule executeSearch_start)
                   apply (erule executeSearch_after_goto)
                  apply (erule executeSearch_clear_after_click)
    using a apply blast
    using a apply blast
    using a apply blast
    using executeSearch_enter_after_fill[of searchTerm pg h] apply blast
    using b apply blast
    using c apply blast
    using c apply blast
    using d apply blast
    using g apply blast
    using g apply blast
    using executeSearch_returns_iff[of pg searchTerm h] apply blast
    using executeSearch_all_resolve[of pg searchTerm h] apply blast
    using e apply blast
    using e apply blast
    using f apply blast
    done
qed

text \<open>The search for \<^verbatim>\<open>ftira\<close> on the home page, where it returns; on a page where
  no result container comes up, where it throws after the last wait has timed out; and
  on the image search, where it loads the home page first.\<close>

theorem C8_executeSearch_clear_fill_enter_wait_witness:
  "executeSearch homePage ''ftira'' [] =
     (Inr (),
      [Did (WaitForSelector (searchBox locators) 10000 (Some ''visible'')) None,
       ReadUrl ''https://www.google.com/'',
       Did (Click searchInput) None, Did (Clear searchInput) None,
       Did (Fill searchInput ''ftira'') None, Did (Press searchInput ''Enter'') None,
       Did (WaitForSelector (resultContainers locators) (waitTimeout config) None) None])
   \<and> fieldAfter ''valletta'' (snd (executeSearch homePage ''ftira'' [])) = ''ftira''
   \<and> executeSearch noResultsPage ''ftira'' [] =
     (Inl \<lparr>errorName = ''Error'', message = ''Search execution failed: Timeout 10000ms exceeded.''\<rparr>,
      [Did (WaitForSelector (searchBox locators) 10000 (Some ''visible'')) None,
       ReadUrl ''https://www.google.com/'',
       Did (Click searchInput) None, Did (Clear searchInput) None,
       Did (Fill searchInput ''ftira'') None, Did (Press searchInput ''Enter'') None,
       Did (WaitForSelector (resultContainers locators) (waitTimeout config) None)
         (Some \<lparr>errorName = ''TimeoutError'', message = ''Timeout 10000ms exceeded.''\<rparr>)])
   \<and> executeSearch imagesPage ''ftira'' [] =
     (Inr (),
      [Did (WaitForSelector (searchBox locators) 10000 (Some ''visible'')) None,
       ReadUrl ''https://www.google.com/?tbm=isch'',
       Did (Goto ''https://www.google.com'' None) None,
       Did (WaitForSelector ''textarea[name=\"q\"]'' 5000 None) None,
       Did (Click searchInput) None, Did (Clear searchInput) None,
       Did (Fill searchInput ''ftira'') None, Did (Press searchInput ''Enter'') None,
       Did (WaitForSelector (resultContainers locators) (waitTimeout config) None) None])"
  using C8_executeSearch_clear_fill_enter_wait [of homePage "''ftira''" "[]"]
    C8_executeSearch_clear_fill_enter_wait [of noResultsPage "''ftira''" "[]"]
    C8_executeSearch_clear_fill_enter_wait [of imagesPage "''ftira''" "[]"]
  by (simp add: home_search_eval noResults_search_eval images_search_eval)







section \<open>Result extraction: auxiliary facts\<close>

lemma trim_empty [simp]: "trim rt [] = []"
  by (simp add: trim_def)

text \<open>One pass of the loop, outcome by outcome.\<close>

lemma extractLoop_done:
  "\<not> i < min nTitles 10 \<Longrightarrow> extractLoop rt pg nTitles nDescriptions i resultData h = ((None, resultData), [])"
  by (subst extractLoop.simps) (simp del: min_less_iff_conj)

lemma extractLoop_cases:
  obtains
    (finished) "\<not> i < min nTitles 10"
      "extractLoop rt pg nTitles nDescriptions i resultData h = ((None, resultData), [])"
  | (titleFails) e where "i < min nTitles 10"
      "extractLoop rt pg nTitles nDescriptions i resultData h =
         ((Some e, resultData), [ReadText (Nth (resultHeaders locators) i) (Inl e)])"
  | (descFails) t e where "i < min nTitles 10" "i < nDescriptions"
      "extractLoop rt pg nTitles nDescriptions i resultData h =
         ((Some e, resultData),
          [ReadText (Nth (resultHeaders locators) i) (Inr t),
           ReadText (Nth (resultDescriptions locators) i) (Inl e)])"
  | (pushed) t d where "i < min nTitles 10"
      "extractLoop rt pg nTitles nDescriptions i resultData h =
         (case extractLoop rt pg nTitles nDescriptions (i + 1)
                 (resultData @ [entryAt rt nDescriptions i t d]) (h @ readsAt nDescriptions i t d) of
            (r, es) \<Rightarrow> (r, readsAt nDescriptions i t d @ es))"
proof (cases "i < min nTitles 10")
  case False
  then show ?thesis using finished extractLoop_done by blast
next
  case assms: True
  let ?H = "Nth (resultHeaders locators) i"
  let ?D = "Nth (resultDescriptions locators) i"
  show ?thesis
  proof (cases "on_textContent pg h ?H")
    case (Inl e)
    with assms have "extractLoop rt pg nTitles nDescriptions i resultData h =
         ((Some e, resultData), [ReadText ?H (Inl e)])"
      by (subst extractLoop.simps) (simp add: bind_def textContent_def del: min_less_iff_conj)
    with assms show ?thesis using titleFails by blast
  next
    case (Inr t)
    note title = Inr
    show ?thesis
    proof (cases "i < nDescriptions")
      case False
      with assms title have "extractLoop rt pg nTitles nDescriptions i resultData h =
         (case extractLoop rt pg nTitles nDescriptions (i + 1)
                 (resultData @ [entryAt rt nDescriptions i t None]) (h @ readsAt nDescriptions i t None) of
            (r, es) \<Rightarrow> (r, readsAt nDescriptions i t None @ es))"
        by (subst extractLoop.simps)
           (simp add: bind_def textContent_def return_def entryAt_def readsAt_def del: min_less_iff_conj)
      with assms show ?thesis using pushed by blast
    next
      case True
      show ?thesis
      proof (cases "on_textContent pg (h @ [ReadText ?H (Inr t)]) ?D")
        case (Inl e)
        with assms title True have "extractLoop rt pg nTitles nDescriptions i resultData h =
           ((Some e, resultData), [ReadText ?H (Inr t), ReadText ?D (Inl e)])"
          by (subst extractLoop.simps) (simp add: bind_def textContent_def return_def del: min_less_iff_conj)
        with assms True show ?thesis using descFails by blast
      next
        case (Inr d)
        with assms title True have "extractLoop rt pg nTitles nDescriptions i resultData h =
           (case extractLoop rt pg nTitles nDescriptions (i + 1)
                 (resultData @ [entryAt rt nDescriptions i t d]) (h @ readsAt nDescriptions i t d) of
            (r, es) \<Rightarrow> (r, readsAt nDescriptions i t d @ es))"
          by (subst extractLoop.simps)
             (simp add: bind_def textContent_def return_def entryAt_def readsAt_def del: min_less_iff_conj)
        with assms show ?thesis using pushed by blast
      qed
    qed
  qed
qed


lemma extractLoop_pushed_parts:
  assumes "extractLoop rt pg nTitles nDescriptions i resultData h =
         (case extractLoop rt pg nTitles nDescriptions (i + 1) resultData' h' of
            (r, es) \<Rightarrow> (r, blk @ es))"
  shows "fst (extractLoop rt pg nTitles nDescriptions i resultData h) =
           fst (extractLoop rt pg nTitles nDescriptions (i + 1) resultData' h')"
    and "snd (extractLoop rt pg nTitles nDescriptions i resultData h) =
           blk @ snd (extractLoop rt pg nTitles nDescriptions (i + 1) resultData' h')"
  using assms by (simp_all split: prod.splits)

lemma extractLoop_length:
  assumes "length resultData = i"
  shows "(\<exists>new. snd (fst (extractLoop rt pg nTitles nDescriptions i resultData h)) = resultData @ new)
     \<and> length (snd (fst (extractLoop rt pg nTitles nDescriptions i resultData h))) \<le> max i (min nTitles 10)
     \<and> (fst (fst (extractLoop rt pg nTitles nDescriptions i resultData h)) = None \<longrightarrow>
          length (snd (fst (extractLoop rt pg nTitles nDescriptions i resultData h))) = max i (min nTitles 10))"
  using assms
proof (induction "min nTitles 10 - i" arbitrary: i resultData h rule: less_induct)
  case less
  show ?case
  proof (cases rule: extractLoop_cases[of i nTitles rt pg nDescriptions resultData h])
    case finished
    with less.prems show ?thesis by (simp del: min_less_iff_conj)
  next
    case (titleFails e)
    with less.prems show ?thesis by simp
  next
    case (descFails t e)
    with less.prems show ?thesis by simp
  next
    case (pushed t d)
    have n: "min nTitles 10 - (i + 1) < min nTitles 10 - i" using pushed(1) by arith
    have len: "length (resultData @ [entryAt rt nDescriptions i t d]) = i + 1"
      using less.prems by simp
    from less.hyps[OF n len, of "h @ readsAt nDescriptions i t d"]
      extractLoop_pushed_parts(1)[OF pushed(2)] pushed(1)
    show ?thesis by auto
  qed
qed

lemma headers_not_descriptions: "resultHeaders locators \<noteq> resultDescriptions locators"
  by (simp add: locators_def)

lemma extractLoop_entries:
  assumes "length resultData = i" and "i \<le> j"
    and "j < length (snd (fst (extractLoop rt pg nTitles nDescriptions i resultData h)))"
  shows "\<exists>t d. snd (fst (extractLoop rt pg nTitles nDescriptions i resultData h)) ! j = entryAt rt nDescriptions j t d
       \<and> set (readsAt nDescriptions j t d) \<subseteq> set (snd (extractLoop rt pg nTitles nDescriptions i resultData h))"
  using assms
proof (induction "min nTitles 10 - i" arbitrary: i resultData h rule: less_induct)
  case less
  show ?case
  proof (cases rule: extractLoop_cases[of i nTitles rt pg nDescriptions resultData h])
    case finished
    with less.prems show ?thesis by (simp del: min_less_iff_conj)
  next
    case (titleFails e)
    with less.prems show ?thesis by simp
  next
    case (descFails t e)
    with less.prems show ?thesis by simp
  next
    case (pushed t d)
    let ?acc = "resultData @ [entryAt rt nDescriptions i t d]"
    let ?h = "h @ readsAt nDescriptions i t d"
    let ?R' = "extractLoop rt pg nTitles nDescriptions (i + 1) ?acc ?h"
    have n: "min nTitles 10 - (i + 1) < min nTitles 10 - i" using pushed(1) by arith
    have len: "length ?acc = i + 1" using less.prems by simp
    note f = extractLoop_pushed_parts(1)[OF pushed(2)]
    note s = extractLoop_pushed_parts(2)[OF pushed(2)]
    show ?thesis
    proof (cases "j = i")
      case True
      from extractLoop_length[OF len, of rt pg nTitles nDescriptions ?h]
      obtain new where "snd (fst ?R') = ?acc @ new" by blast
      then have "snd (fst ?R') ! i = entryAt rt nDescriptions i t d"
        using less.prems(1) by (simp add: nth_append)
      with True f s show ?thesis by auto
    next
      case False
      with less.prems have j: "i + 1 \<le> j" by simp
      from less.prems(3) f have "j < length (snd (fst ?R'))" by simp
      from less.hyps[OF n len j this] f s show ?thesis by auto
    qed
  qed
qed

lemma extractLoop_keeps_completed:
  assumes "length resultData = i"
    and "ReadText (Nth (resultHeaders locators) j) (Inr t)
           \<in> set (snd (extractLoop rt pg nTitles nDescriptions i resultData h))"
    and "\<forall>e. ReadText (Nth (resultDescriptions locators) j) (Inl e)
           \<notin> set (snd (extractLoop rt pg nTitles nDescriptions i resultData h))"
  shows "j < length (snd (fst (extractLoop rt pg nTitles nDescriptions i resultData h)))"
  using assms
proof (induction "min nTitles 10 - i" arbitrary: i resultData h rule: less_induct)
  case less
  show ?case
  proof (cases rule: extractLoop_cases[of i nTitles rt pg nDescriptions resultData h])
    case finished
    with less.prems show ?thesis by (simp del: min_less_iff_conj)
  next
    case (titleFails e)
    with less.prems show ?thesis by simp
  next
    case (descFails t' e)
    with less.prems show ?thesis by (auto simp: headers_not_descriptions)
  next
    case (pushed t' d)
    let ?acc = "resultData @ [entryAt rt nDescriptions i t' d]"
    let ?h = "h @ readsAt nDescriptions i t' d"
    let ?R' = "extractLoop rt pg nTitles nDescriptions (i + 1) ?acc ?h"
    have n: "min nTitles 10 - (i + 1) < min nTitles 10 - i" using pushed(1) by arith
    have len: "length ?acc = i + 1" using less.prems by simp
    note f = extractLoop_pushed_parts(1)[OF pushed(2)]
    note s = extractLoop_pushed_parts(2)[OF pushed(2)]
    from extractLoop_length[OF len, of rt pg nTitles nDescriptions ?h]
    obtain new where new: "snd (fst ?R') = ?acc @ new" by blast
    from less.prems(2) s
    have "ReadText (Nth (resultHeaders locators) j) (Inr t) \<in> set (readsAt nDescriptions i t' d)
        \<or> ReadText (Nth (resultHeaders locators) j) (Inr t) \<in> set (snd ?R')"
      by auto
    then show ?thesis
    proof
      assume "ReadText (Nth (resultHeaders locators) j) (Inr t) \<in> set (readsAt nDescriptions i t' d)"
      then have "j = i"
        by (auto simp: readsAt_def headers_not_descriptions split: if_splits)
      with new f less.prems(1) show ?thesis by simp
    next
      assume a: "ReadText (Nth (resultHeaders locators) j) (Inr t) \<in> set (snd ?R')"
      from less.prems(3) s
      have b: "\<forall>e. ReadText (Nth (resultDescriptions locators) j) (Inl e) \<notin> set (snd ?R')"
        by auto
      from less.hyps[OF n len a b] f show ?thesis by simp
    qed
  qed
qed


lemma extractLoop_raised:
  assumes "fst (fst (extractLoop rt pg nTitles nDescriptions i resultData h)) = Some e"
  shows "\<exists>ev \<in> set (snd (extractLoop rt pg nTitles nDescriptions i resultData h)). raised ev"
  using assms
proof (induction "min nTitles 10 - i" arbitrary: i resultData h rule: less_induct)
  case less
  show ?case
  proof (cases rule: extractLoop_cases[of i nTitles rt pg nDescriptions resultData h])
    case finished
    with less.prems show ?thesis by simp
  next
    case (titleFails e)
    then show ?thesis by simp
  next
    case (descFails t e)
    then show ?thesis by simp
  next
    case (pushed t d)
    have n: "min nTitles 10 - (i + 1) < min nTitles 10 - i" using pushed(1) by arith
    note f = extractLoop_pushed_parts(1)[OF pushed(2)]
    note s = extractLoop_pushed_parts(2)[OF pushed(2)]
    from less.prems f
    have "fst (fst (extractLoop rt pg nTitles nDescriptions (i + 1)
             (resultData @ [entryAt rt nDescriptions i t d]) (h @ readsAt nDescriptions i t d))) = Some e"
      by simp
    from less.hyps[OF n this] s show ?thesis by auto
  qed
qed

lemma extractResultData_cases:
  obtains
    (noTitles) e where
      "extractResultData rt pg h = (Inr [], [Listed (resultHeaders locators) (Inl e)])"
  | (noDescriptions) nTitles e where
      "extractResultData rt pg h =
         (Inr [], [Listed (resultHeaders locators) (Inr nTitles),
                   Listed (resultDescriptions locators) (Inl e)])"
  | (looped) nTitles nDescriptions where
      "extractResultData rt pg h =
         (Inr (snd (fst (extractLoop rt pg nTitles nDescriptions 0 []
                 (h @ [Listed (resultHeaders locators) (Inr nTitles),
                       Listed (resultDescriptions locators) (Inr nDescriptions)])))),
          [Listed (resultHeaders locators) (Inr nTitles),
           Listed (resultDescriptions locators) (Inr nDescriptions)]
          @ snd (extractLoop rt pg nTitles nDescriptions 0 []
                 (h @ [Listed (resultHeaders locators) (Inr nTitles),
                       Listed (resultDescriptions locators) (Inr nDescriptions)])))"
proof (cases "on_all pg h (resultHeaders locators)")
  case (Inl e)
  then have "extractResultData rt pg h = (Inr [], [Listed (resultHeaders locators) (Inl e)])"
    by (simp add: extractResultData_def extractBody_def locator_all_def)
  then show ?thesis using noTitles by blast
next
  case (Inr nTitles)
  note titles = Inr
  show ?thesis
  proof (cases "on_all pg (h @ [Listed (resultHeaders locators) (Inr nTitles)]) (resultDescriptions locators)")
    case (Inl e)
    with titles have "extractResultData rt pg h =
         (Inr [], [Listed (resultHeaders locators) (Inr nTitles),
                   Listed (resultDescriptions locators) (Inl e)])"
      by (simp add: extractResultData_def extractBody_def locator_all_def)
    then show ?thesis using noDescriptions by blast
  next
    case (Inr nDescriptions)
    with titles have "extractResultData rt pg h =
         (Inr (snd (fst (extractLoop rt pg nTitles nDescriptions 0 []
                 (h @ [Listed (resultHeaders locators) (Inr nTitles),
                       Listed (resultDescriptions locators) (Inr nDescriptions)])))),
          [Listed (resultHeaders locators) (Inr nTitles),
           Listed (resultDescriptions locators) (Inr nDescriptions)]
          @ snd (extractLoop rt pg nTitles nDescriptions 0 []
                 (h @ [Listed (resultHeaders locators) (Inr nTitles),
                       Listed (resultDescriptions locators) (Inr nDescriptions)])))"
      by (simp add: extractResultData_def extractBody_def locator_all_def
          split: prod.splits option.splits)
    then show ?thesis using looped by blast
  qed
qed

section \<open>Claims on result extraction\<close>

text \<open>The example runs.\<close>

lemmas extract_defs = extractResultData_def extractBody_def locator_all_def extractLoop.simps
  bind_def textContent_def return_def or_empty_def trim_def asciiRuntime_def asciiTrim_def
  isAsciiWhiteSpace_def

lemma broken_extract_eval:
  "extractResultData asciiRuntime brokenReadPage [] =
     (Inr [\<lparr>position = 1, title = ''Valletta'', description = ''Valletta''\<rparr>,
           \<lparr>position = 2, title = ''Valletta'', description = ''Valletta''\<rparr>],
      [Listed (resultHeaders locators) (Inr 5),
       Listed (resultDescriptions locators) (Inr 5),
       ReadText (Nth (resultHeaders locators) 0) (Inr (Some ''  Valletta '')),
       ReadText (Nth (resultDescriptions locators) 0) (Inr (Some ''  Valletta '')),
       ReadText (Nth (resultHeaders locators) 1) (Inr (Some ''  Valletta '')),
       ReadText (Nth (resultDescriptions locators) 1) (Inr (Some ''  Valletta '')),
       ReadText (Nth (resultHeaders locators) 2)
         (Inl \<lparr>errorName = ''Error'', message = ''Target closed''\<rparr>)])"
  by (simp add: extract_defs brokenReadPage_def staticPage_def headers_not_descriptions
      headers_not_descriptions[symmetric])

lemma two_extract_eval:
  "extractResultData asciiRuntime twoResultsPage [] =
     (Inr [\<lparr>position = 1, title = ''Valletta - Wikipedia'', description = ''Capital of Malta''\<rparr>,
           \<lparr>position = 2, title = [], description = []\<rparr>],
      [Listed (resultHeaders locators) (Inr 2),
       Listed (resultDescriptions locators) (Inr 1),
       ReadText (Nth (resultHeaders locators) 0) (Inr (Some ''  Valletta - Wikipedia '')),
       ReadText (Nth (resultDescriptions locators) 0) (Inr (Some '' Capital of Malta '')),
       ReadText (Nth (resultHeaders locators) 1) (Inr None)])"
  by (simp add: extract_defs twoResultsPage_def staticPage_def headers_not_descriptions
      headers_not_descriptions[symmetric])

text \<open>
  C4. \<open>extractResultData\<close> never throws: on every page it returns a list. Nothing
  accumulated is lost: every index whose title was read and whose description read did
  not throw has its entry in the list, at its place; and every entry of the list
  belongs to a title that was read. So a call that throws (listing the elements, or
  reading a title or a description) leaves the entries of the passes completed before
  it, possibly none.
\<close>

theorem C4_extract_never_throws:
  "\<exists>resultData. fst (extractResultData rt pg h) = Inr resultData
     \<and> (\<forall>j t. ReadText (Nth (resultHeaders locators) j) (Inr t) \<in> set (snd (extractResultData rt pg h))
              \<and> (\<forall>e. ReadText (Nth (resultDescriptions locators) j) (Inl e)
                        \<notin> set (snd (extractResultData rt pg h)))
           \<longrightarrow> j < length resultData \<and> position (resultData ! j) = j + 1)
     \<and> (\<forall>j < length resultData.
           \<exists>t. ReadText (Nth (resultHeaders locators) j) (Inr t) \<in> set (snd (extractResultData rt pg h)))"
proof (cases rule: extractResultData_cases[of rt pg h])
  case (noTitles e)
  then show ?thesis by simp
next
  case (noDescriptions nTitles e)
  then show ?thesis by simp
next
  case (looped nTitles nDescriptions)
  let ?h = "h @ [Listed (resultHeaders locators) (Inr nTitles),
                 Listed (resultDescriptions locators) (Inr nDescriptions)]"
  let ?R = "extractLoop rt pg nTitles nDescriptions 0 [] ?h"
  let ?rd = "snd (fst ?R)"
  have res: "fst (extractResultData rt pg h) = Inr ?rd"
    and es: "snd (extractResultData rt pg h) =
       [Listed (resultHeaders locators) (Inr nTitles),
        Listed (resultDescriptions locators) (Inr nDescriptions)] @ snd ?R"
    using looped by simp_all
  have entries: "\<And>i. i < length ?rd \<Longrightarrow>
      \<exists>t d. ?rd ! i = entryAt rt nDescriptions i t d \<and> set (readsAt nDescriptions i t d) \<subseteq> set (snd ?R)"
    using extractLoop_entries[of "[]" 0 _ rt pg nTitles nDescriptions ?h] by simp
  have kept: "\<forall>j t. ReadText (Nth (resultHeaders locators) j) (Inr t) \<in> set (snd (extractResultData rt pg h))
              \<and> (\<forall>e. ReadText (Nth (resultDescriptions locators) j) (Inl e)
                        \<notin> set (snd (extractResultData rt pg h)))
           \<longrightarrow> j < length ?rd \<and> position (?rd ! j) = j + 1"
  proof (intro allI impI)
    fix j t
    assume a: "ReadText (Nth (resultHeaders locators) j) (Inr t) \<in> set (snd (extractResultData rt pg h))
              \<and> (\<forall>e. ReadText (Nth (resultDescriptions locators) j) (Inl e)
                        \<notin> set (snd (extractResultData rt pg h)))"
    then have r: "ReadText (Nth (resultHeaders locators) j) (Inr t) \<in> set (snd ?R)"
      and n: "\<forall>e. ReadText (Nth (resultDescriptions locators) j) (Inl e) \<notin> set (snd ?R)"
      by (simp_all add: es)
    have j: "j < length ?rd"
      by (rule extractLoop_keeps_completed[OF _ r n]) simp
    from entries[OF j] have "position (?rd ! j) = j + 1" by (auto simp: entryAt_def)
    with j show "j < length ?rd \<and> position (?rd ! j) = j + 1" by simp
  qed
  have present: "\<forall>j < length ?rd.
           \<exists>t. ReadText (Nth (resultHeaders locators) j) (Inr t) \<in> set (snd (extractResultData rt pg h))"
  proof (intro allI impI)
    fix j assume "j < length ?rd"
    from entries[OF this] show
      "\<exists>t. ReadText (Nth (resultHeaders locators) j) (Inr t) \<in> set (snd (extractResultData rt pg h))"
      by (auto simp: readsAt_def es)
  qed
  from res kept present show ?thesis by blast
qed

text \<open>Reading the third title throws: the two entries pushed before are returned.\<close>

theorem C4_extract_never_throws_witness:
  "fst (extractResultData asciiRuntime brokenReadPage []) =
     Inr [\<lparr>position = 1, title = ''Valletta'', description = ''Valletta''\<rparr>,
          \<lparr>position = 2, title = ''Valletta'', description = ''Valletta''\<rparr>]
   \<and> ReadText (Nth (resultHeaders locators) 2) (Inl \<lparr>errorName = ''Error'', message = ''Target closed''\<rparr>)
       \<in> set (snd (extractResultData asciiRuntime brokenReadPage []))
   \<and> ReadText (Nth (resultHeaders locators) 1) (Inr (Some ''  Valletta ''))
       \<in> set (snd (extractResultData asciiRuntime brokenReadPage []))"
  using C4_extract_never_throws [of asciiRuntime brokenReadPage "[]"]
  by (simp add: broken_extract_eval)

text \<open>
  C9. \<open>extractResultData\<close> returns at most 10 entries. The entry at index \<open>i\<close> has
  position \<open>i + 1\<close>; its title is the trimmed text read from title element \<open>i\<close>
  (empty when the element has no text); its description is the trimmed text read from
  description element \<open>i\<close> when \<open>i\<close> is below the number of description elements,
  and empty otherwise. When no call throws, the list has one entry for each of the
  first 10 title elements.
\<close>

theorem C9_extract_entries:
  "\<exists>resultData. fst (extractResultData rt pg h) = Inr resultData
     \<and> length resultData \<le> 10
     \<and> (\<forall>i < length resultData.
          \<exists>nTitles nDescriptions t.
             Listed (resultHeaders locators) (Inr nTitles) \<in> set (snd (extractResultData rt pg h))
           \<and> Listed (resultDescriptions locators) (Inr nDescriptions) \<in> set (snd (extractResultData rt pg h))
           \<and> i < nTitles
           \<and> ReadText (Nth (resultHeaders locators) i) (Inr t) \<in> set (snd (extractResultData rt pg h))
           \<and> position (resultData ! i) = i + 1
           \<and> title (resultData ! i) = trim rt (or_empty t)
           \<and> (if i < nDescriptions
               then \<exists>d. ReadText (Nth (resultDescriptions locators) i) (Inr d)
                            \<in> set (snd (extractResultData rt pg h))
                        \<and> description (resultData ! i) = trim rt (or_empty d)
               else description (resultData ! i) = []))
     \<and> ((\<forall>ev \<in> set (snd (extractResultData rt pg h)). \<not> raised ev) \<longrightarrow>
          (\<exists>nTitles. Listed (resultHeaders locators) (Inr nTitles) \<in> set (snd (extractResultData rt pg h))
             \<and> length resultData = min nTitles 10))"
proof (cases rule: extractResultData_cases[of rt pg h])
  case (noTitles e)
  then show ?thesis by simp
next
  case (noDescriptions nTitles e)
  then show ?thesis by simp
next
  case (looped nTitles nDescriptions)
  let ?h = "h @ [Listed (resultHeaders locators) (Inr nTitles),
                 Listed (resultDescriptions locators) (Inr nDescriptions)]"
  let ?R = "extractLoop rt pg nTitles nDescriptions 0 [] ?h"
  let ?rd = "snd (fst ?R)"
  have len: "length ?rd \<le> min nTitles 10"
    and full: "fst (fst ?R) = None \<Longrightarrow> length ?rd = min nTitles 10"
    using extractLoop_length[of "[]" 0 rt pg nTitles nDescriptions ?h] by simp_all
  have entries: "\<And>i. i < length ?rd \<Longrightarrow>
      \<exists>t d. ?rd ! i = entryAt rt nDescriptions i t d \<and> set (readsAt nDescriptions i t d) \<subseteq> set (snd ?R)"
    using extractLoop_entries[of "[]" 0 _ rt pg nTitles nDescriptions ?h] by simp
  have each: "\<And>i. i < length ?rd \<Longrightarrow>
          \<exists>t. i < nTitles
           \<and> ReadText (Nth (resultHeaders locators) i) (Inr t) \<in> set (snd ?R)
           \<and> position (?rd ! i) = i + 1
           \<and> title (?rd ! i) = trim rt (or_empty t)
           \<and> (if i < nDescriptions
               then \<exists>d. ReadText (Nth (resultDescriptions locators) i) (Inr d) \<in> set (snd ?R)
                        \<and> description (?rd ! i) = trim rt (or_empty d)
               else description (?rd ! i) = [])"
  proof -
    fix i assume i: "i < length ?rd"
    from entries[OF i] obtain t d where
      e: "?rd ! i = entryAt rt nDescriptions i t d"
      and r: "set (readsAt nDescriptions i t d) \<subseteq> set (snd ?R)" by blast
    from i len have "i < nTitles" by simp
    with e r show "\<exists>t. i < nTitles
           \<and> ReadText (Nth (resultHeaders locators) i) (Inr t) \<in> set (snd ?R)
           \<and> position (?rd ! i) = i + 1
           \<and> title (?rd ! i) = trim rt (or_empty t)
           \<and> (if i < nDescriptions
               then \<exists>d. ReadText (Nth (resultDescriptions locators) i) (Inr d) \<in> set (snd ?R)
                        \<and> description (?rd ! i) = trim rt (or_empty d)
               else description (?rd ! i) = [])"
      by (auto simp: entryAt_def readsAt_def)
  qed
  have quiet: "(\<forall>ev \<in> set (snd ?R). \<not> raised ev) \<Longrightarrow> length ?rd = min nTitles 10"
  proof -
    assume q: "\<forall>ev \<in> set (snd ?R). \<not> raised ev"
    have "fst (fst ?R) = None"
    proof (cases "fst (fst ?R)")
      case None
      then show ?thesis .
    next
      case (Some e)
      from extractLoop_raised[OF this] q show ?thesis by blast
    qed
    then show ?thesis by (rule full)
  qed
  have res: "fst (extractResultData rt pg h) = Inr ?rd"
    and es: "snd (extractResultData rt pg h) =
       [Listed (resultHeaders locators) (Inr nTitles),
        Listed (resultDescriptions locators) (Inr nDescriptions)] @ snd ?R"
    using looped by simp_all
  have c2: "length ?rd \<le> 10" using len by simp
  have c3: "\<forall>i < length ?rd.
          \<exists>nTitles nDescriptions t.
             Listed (resultHeaders locators) (Inr nTitles) \<in> set (snd (extractResultData rt pg h))
           \<and> Listed (resultDescriptions locators) (Inr nDescriptions) \<in> set (snd (extractResultData rt pg h))
           \<and> i < nTitles
           \<and> ReadText (Nth (resultHeaders locators) i) (Inr t) \<in> set (snd (extractResultData rt pg h))
           \<and> position (?rd ! i) = i + 1
           \<and> title (?rd ! i) = trim rt (or_empty t)
           \<and> (if i < nDescriptions
               then \<exists>d. ReadText (Nth (resultDescriptions locators) i) (Inr d)
                            \<in> set (snd (extractResultData rt pg h))
                        \<and> description (?rd ! i) = trim rt (or_empty d)
               else description (?rd ! i) = [])"
  proof (intro allI impI)
    fix i assume "i < length ?rd"
    from each[OF this] obtain t where t: "i < nTitles
           \<and> ReadText (Nth (resultHeaders locators) i) (Inr t) \<in> set (snd ?R)
           \<and> position (?rd ! i) = i + 1
           \<and> title (?rd ! i) = trim rt (or_empty t)
           \<and> (if i < nDescriptions
               then \<exists>d. ReadText (Nth (resultDescriptions locators) i) (Inr d) \<in> set (snd ?R)
                        \<and> description (?rd ! i) = trim rt (or_empty d)
               else description (?rd ! i) = [])" by blast
    show "\<exists>nTitles nDescriptions t.
             Listed (resultHeaders locators) (Inr nTitles) \<in> set (snd (extractResultData rt pg h))
           \<and> Listed (resultDescriptions locators) (Inr nDescriptions) \<in> set (snd (extractResultData rt pg h))
           \<and> i < nTitles
           \<and> ReadText (Nth (resultHeaders locators) i) (Inr t) \<in> set (snd (extractResultData rt pg h))
           \<and> position (?rd ! i) = i + 1
           \<and> title (?rd ! i) = trim rt (or_empty t)
           \<and> (if i < nDescriptions
               then \<exists>d. ReadText (Nth (resultDescriptions locators) i) (Inr d)
                            \<in> set (snd (extractResultData rt pg h))
                        \<and> description (?rd ! i) = trim rt (or_empty d)
               else description (?rd ! i) = [])"
      apply (rule exI[of _ nTitles])
      apply (rule exI[of _ nDescriptions])
      apply (rule exI[of _ t])
      using t by (auto simp: es split: if_splits)
  qed
  have c4: "(\<forall>ev \<in> set (snd (extractResultData rt pg h)). \<not> raised ev) \<longrightarrow>
          (\<exists>nTitles. Listed (resultHeaders locators) (Inr nTitles) \<in> set (snd (extractResultData rt pg h))
             \<and> length ?rd = min nTitles 10)"
  proof
    assume "\<forall>ev \<in> set (snd (extractResultData rt pg h)). \<not> raised ev"
    then have "\<forall>ev \<in> set (snd ?R). \<not> raised ev" by (simp add: es)
    from quiet[OF this] show "\<exists>nTitles. Listed (resultHeaders locators) (Inr nTitles)
          \<in> set (snd (extractResultData rt pg h)) \<and> length ?rd = min nTitles 10"
      by (intro exI[of _ nTitles]) (simp add: es)
  qed
  from res c2 c3 c4 show ?thesis by blast
qed

text \<open>Two titles and one description: the second entry has an empty description
  (and an empty title, its element having no text).\<close>

theorem C9_extract_entries_witness:
  "extractResultData asciiRuntime twoResultsPage [] =
     (Inr [\<lparr>position = 1, title = ''Valletta - Wikipedia'', description = ''Capital of Malta''\<rparr>,
           \<lparr>position = 2, title = [], description = []\<rparr>],
      [Listed (resultHeaders locators) (Inr 2),
       Listed (resultDescriptions locators) (Inr 1),
       ReadText (Nth (resultHeaders locators) 0) (Inr (Some ''  Valletta - Wikipedia '')),
       ReadText (Nth (resultDescriptions locators) 0) (Inr (Some '' Capital of Malta '')),
       ReadText (Nth (resultHeaders locators) 1) (Inr None)])
   \<and> trim asciiRuntime (or_empty (Some ''  Valletta - Wikipedia '')) = ''Valletta - Wikipedia''
   \<and> trim asciiRuntime (or_empty None) = []"
  using C9_extract_entries [of asciiRuntime twoResultsPage "[]"]
  by (simp add: two_extract_eval) (simp add: trim_def asciiRuntime_def asciiTrim_def or_empty_def isAsciiWhiteSpace_def)

end
